theory Spec2Isabelle
  imports Main "HOL-Library.Word" "HOL-Library.AList"
begin

unbundle bit_operations_syntax

section \<open>The Bingo prefetcher of \<^verbatim>\<open>src/prefetcher/pref_bingo.c\<close>\<close>

subsection \<open>Types\<close>

text \<open>
  Modelled from the spec: the headers that declare the simulator's integer types are not
  among the sources. Keys of the stores are 64-bit addresses (\<^verbatim>\<open>Addr\<close>); \<^verbatim>\<open>uns8\<close> is
  an 8-bit and \<^verbatim>\<open>uns\<close>, C's \<^verbatim>\<open>unsigned\<close>, a 32-bit unsigned integer. Arithmetic on
  them wraps, as in C.
\<close>

type_synonym Addr = "64 word"
type_synonym uns8 = "8 word"
type_synonym uns = "32 word"
type_synonym uns32 = "32 word"

text \<open>
  Modelled from the spec: the header \<^verbatim>\<open>pref_bingo.h\<close> that declares the structures is
  not among the sources. Their fields are those that \<^verbatim>\<open>pref_bingo.c\<close> reads and writes,
  and their sizes those of the spec's data model and of the loops of the code: a
  footprint is an array of 64 flags, an auxiliary entry holds the trigger address, the
  trigger pc and the footprint, a history record holds the two keys and a copy of an
  auxiliary entry, and a table line holds 16 records, the array \<^verbatim>\<open>usage_order[16]\<close> and
  \<^verbatim>\<open>current_size\<close>. The two \<^verbatim>\<open>int\<close> fields only ever hold slot indices and counts,
  so they are naturals here. A flag is \<^verbatim>\<open>TRUE\<close> or zero, so it is a \<open>bool\<close>.
\<close>

record Footprint =
  accessed :: "bool list"

record Aux_Entry =
  trigger_addr :: Addr
  pc :: Addr
  footprint :: Footprint

record Bingo_History_Table =
  pc_plus_address :: Addr
  pc_plus_offset :: Addr
  entry :: Aux_Entry

record Bingo_Table_Line =
  line :: "Bingo_History_Table list"
  usage_order :: "nat list"
  current_size :: nat

text \<open>What \<^verbatim>\<open>memset(&x, 0, sizeof(x))\<close> leaves in each structure.\<close>

definition zero_Aux_Entry :: Aux_Entry where
  "zero_Aux_Entry =
     \<lparr>trigger_addr = 0, pc = 0, footprint = \<lparr>accessed = replicate 64 False\<rparr>\<rparr>"

definition zero_History_Entry :: Bingo_History_Table where
  "zero_History_Entry =
     \<lparr>pc_plus_address = 0, pc_plus_offset = 0, entry = zero_Aux_Entry\<rparr>"

definition zero_Table_Line :: Bingo_Table_Line where
  "zero_Table_Line =
     \<lparr>line = replicate 16 zero_History_Entry, usage_order = replicate 16 0,
      current_size = 0\<rparr>"

subsection \<open>The associative store\<close>

text \<open>
  Modelled from the spec: the hash table utility (\<^verbatim>\<open>libs/hash_lib\<close>) is not among the
  sources. The spec gives it as an associative store with lookup by key (the entry or
  none), upsert by key (insert or overwrite), delete by key and a count of live entries.
  A table is an association list with one pair per live key; \<open>count\<close> is its length.
\<close>

type_synonym 'v Hash_Table = "(Addr \<times> 'v) list"

definition hash_table_access :: "'v Hash_Table \<Rightarrow> Addr \<Rightarrow> 'v option" where
  "hash_table_access t k = map_of t k"

definition hash_table_access_replace :: "'v Hash_Table \<Rightarrow> Addr \<Rightarrow> 'v \<Rightarrow> 'v Hash_Table" where
  "hash_table_access_replace t k v = AList.update k v t"

definition hash_table_access_delete :: "'v Hash_Table \<Rightarrow> Addr \<Rightarrow> 'v Hash_Table" where
  "hash_table_access_delete t k = AList.delete k t"

definition count :: "'v Hash_Table \<Rightarrow> nat" where
  "count t = length t"

text \<open>
  \<^verbatim>\<open>hash_table_access\<close> returns a pointer into the table, and the code assigns through
  it. \<open>store_through\<close> is that assignment: the entry under a live key is overwritten in
  place.
\<close>

definition store_through :: "'v Hash_Table \<Rightarrow> Addr \<Rightarrow> 'v \<Rightarrow> 'v Hash_Table" where
  "store_through t k v = AList.update k v t"

subsection \<open>The prefetcher's state\<close>

text \<open>
  The globals \<^verbatim>\<open>History_Table\<close>, \<^verbatim>\<open>Aux_Storage\<close> and \<^verbatim>\<open>hwp_in\<close> (of which only the
  \<^verbatim>\<open>id\<close> is read), and the request queue.

  Modelled from the spec: \<^verbatim>\<open>pref_addto_ul1req_queue\<close> is not among the sources. The
  spec gives it as a sink that accepts a processor id, a line index and the requester's
  identity and returns nothing; the state keeps the requests handed to it, oldest first.

  \<^verbatim>\<open>pref_bingo_init\<close>, when \<^verbatim>\<open>PREF_BINGO_ON\<close> is set, enables the prefetcher, copies
  its \<^verbatim>\<open>hwp_info\<close> and creates the two tables, empty; the model is of the prefetcher
  switched on.
\<close>

type_synonym request = "uns8 \<times> uns \<times> uns8"

record bingo_state =
  History_Table :: "Bingo_Table_Line Hash_Table"
  Aux_Storage :: "Aux_Entry Hash_Table"
  hwp_in_id :: uns8
  ul1req_queue :: "request list"

definition pref_bingo_init :: "uns8 \<Rightarrow> bingo_state" where
  "pref_bingo_init hid =
     \<lparr>History_Table = [], Aux_Storage = [], hwp_in_id = hid, ul1req_queue = []\<rparr>"

subsection \<open>Page number and indices\<close>

definition bingo_get_page_number :: "Addr \<Rightarrow> Addr" where
  "bingo_get_page_number addr = drop_bit 12 addr"

definition bingo_get_page_base_from_number :: "Addr \<Rightarrow> Addr" where
  "bingo_get_page_base_from_number page_num = push_bit 12 page_num"

definition bingo_get_block_index :: "Addr \<Rightarrow> nat" where
  "bingo_get_block_index addr = unat (drop_bit 6 (addr AND (4096 - 1)))"

subsection \<open>The bounded LRU line\<close>

text \<open>
  The loop \<^verbatim>\<open>for(i = n; i > 0; i--) usage_order[i] = usage_order[i - 1]\<close>, which both
  \<^verbatim>\<open>add_entry\<close> (from \<^verbatim>\<open>used - 1\<close>) and \<^verbatim>\<open>mark_used_by_address\<close> (from the position
  found) run.
\<close>

primrec shift_right :: "nat \<Rightarrow> nat list \<Rightarrow> nat list" where
  "shift_right 0 uo = uo"
| "shift_right (Suc k) uo = shift_right k (uo[Suc k := uo ! k])"

definition add_entry :: "Bingo_Table_Line \<Rightarrow> Bingo_History_Table \<Rightarrow> Bingo_Table_Line" where
  "add_entry table_line new_entry =
     (let used0 = current_size table_line;
          index_to_replace =
            (if used0 < 16 then used0 else usage_order table_line ! 15);
          used = (if used0 < 16 then used0 + 1 else 16)
      in \<lparr>line = (line table_line)[index_to_replace := new_entry],
          usage_order =
            (shift_right (used - 1) (usage_order table_line))[0 := index_to_replace],
          current_size = (if used0 < 16 then used0 + 1 else used0)\<rparr>)"

definition mark_used_by_address :: "Bingo_Table_Line \<Rightarrow> Addr \<Rightarrow> Bingo_Table_Line" where
  "mark_used_by_address table_line ppa =
     (case find (\<lambda>i. pc_plus_address (line table_line ! i) = ppa)
             [0..<current_size table_line] of
        None \<Rightarrow> table_line
      | Some found_index \<Rightarrow>
          (case find (\<lambda>i. usage_order table_line ! i = found_index)
                  [0..<current_size table_line] of
             None \<Rightarrow> table_line
           | Some i \<Rightarrow>
               table_line\<lparr>usage_order :=
                 (shift_right i (usage_order table_line))[0 := found_index]\<rparr>))"

subsection \<open>History-table search helpers\<close>

text \<open>
  Both searches return a pointer \<^verbatim>\<open>&table_line->line[index]\<close> or \<^verbatim>\<open>NULL\<close>; the model
  returns the slot \<open>index\<close> or \<open>None\<close>. The first argument is the global
  \<^verbatim>\<open>History_Table\<close>, whose \<^verbatim>\<open>count\<close> they test first.
\<close>

definition pref_bingo_find_event_to_fetch ::
  "Bingo_Table_Line Hash_Table \<Rightarrow> Bingo_Table_Line \<Rightarrow> Addr \<Rightarrow> nat option" where
  "pref_bingo_find_event_to_fetch H table_line ppo =
     (if count H = 0 then None
      else map_option (\<lambda>i. usage_order table_line ! i)
             (find (\<lambda>i. pc_plus_offset (line table_line ! (usage_order table_line ! i)) = ppo)
                [0..<current_size table_line]))"

definition pref_bingo_find_event_to_fetch_addr ::
  "Bingo_Table_Line Hash_Table \<Rightarrow> Bingo_Table_Line \<Rightarrow> Addr \<Rightarrow> nat option" where
  "pref_bingo_find_event_to_fetch_addr H table_line ppa =
     (if count H = 0 then None
      else map_option (\<lambda>i. usage_order table_line ! i)
             (find (\<lambda>i. pc_plus_address (line table_line ! (usage_order table_line ! i)) = ppa)
                [0..<current_size table_line]))"

subsection \<open>The prefetch emitter\<close>

text \<open>
  \<^verbatim>\<open>DCACHE_LINE_SIZE\<close> is a parameter of the simulator; \<open>lg\<close> stands for
  \<^verbatim>\<open>LOG2(DCACHE_LINE_SIZE)\<close>. The cast \<^verbatim>\<open>(uns)\<close> keeps the low 32 bits. The loop over
  \<open>i = 0, ..., 63\<close> is a fold over the indices, threading the request queue.
\<close>

definition prefetch_request :: "nat \<Rightarrow> uns8 \<Rightarrow> uns8 \<Rightarrow> Addr \<Rightarrow> nat \<Rightarrow> request" where
  "prefetch_request lg hid proc_id page_base i =
     (let line_addr = page_base + push_bit 6 (of_nat i);
          line_index = (ucast (drop_bit lg line_addr) :: uns)
      in (proc_id, line_index, hid))"

definition pref_bingo_prefetch ::
  "nat \<Rightarrow> uns8 \<Rightarrow> request list \<Rightarrow> Bingo_History_Table \<Rightarrow> uns8 \<Rightarrow> Addr \<Rightarrow> request list" where
  "pref_bingo_prefetch lg hid queue History_Entry proc_id page_address =
     (let page_base = bingo_get_page_base_from_number page_address
      in fold (\<lambda>i q.
                 if accessed (footprint (entry History_Entry)) ! i
                 then q @ [prefetch_request lg hid proc_id page_base i]
                 else q)
           [0..<64] queue)"

subsection \<open>The three callbacks\<close>

text \<open>
  The footprint update that the hit path and the two learning branches of the miss path
  run: set the bit of a live entry, or create an entry with that one bit.
\<close>

definition set_accessed :: "Aux_Entry \<Rightarrow> nat \<Rightarrow> Aux_Entry" where
  "set_accessed e block_index =
     e\<lparr>footprint := \<lparr>accessed = (accessed (footprint e))[block_index := True]\<rparr>\<rparr>"

definition update_footprint :: "bingo_state \<Rightarrow> Addr \<Rightarrow> Addr \<Rightarrow> bingo_state" where
  "update_footprint s lineAddr loadPC =
     (let page_number = bingo_get_page_number lineAddr;
          block_index = bingo_get_block_index lineAddr
      in case hash_table_access (Aux_Storage s) page_number of
           Some aux_entry \<Rightarrow>
             s\<lparr>Aux_Storage :=
                 store_through (Aux_Storage s) page_number (set_accessed aux_entry block_index)\<rparr>
         | None \<Rightarrow>
             (let new_entry =
                    set_accessed (zero_Aux_Entry\<lparr>trigger_addr := lineAddr, pc := loadPC\<rparr>)
                      block_index
              in s\<lparr>Aux_Storage :=
                     hash_table_access_replace (Aux_Storage s) page_number new_entry\<rparr>))"

definition pref_bingo_ul1_hit :: "bingo_state \<Rightarrow> uns8 \<Rightarrow> Addr \<Rightarrow> Addr \<Rightarrow> uns32 \<Rightarrow> bingo_state" where
  "pref_bingo_ul1_hit s proc_id lineAddr loadPC global_hist = update_footprint s lineAddr loadPC"

definition pref_bingo_ul1_cache_evict :: "bingo_state \<Rightarrow> uns8 \<Rightarrow> Addr \<Rightarrow> bingo_state" where
  "pref_bingo_ul1_cache_evict s proc_id lineAddr =
     (let page_number = bingo_get_page_number lineAddr
      in case hash_table_access (Aux_Storage s) page_number of
           None \<Rightarrow> s
         | Some aux_entry \<Rightarrow>
             (let block_address = drop_bit 6 lineAddr;
                  ppo = pc aux_entry + block_address;
                  ppa = pc aux_entry + lineAddr;
                  hist_entry =
                    \<lparr>pc_plus_address = ppa, pc_plus_offset = ppo, entry = aux_entry\<rparr>;
                  table_line =
                    (case hash_table_access (History_Table s) ppo of
                       None \<Rightarrow> zero_Table_Line
                     | Some l \<Rightarrow> l)
              in s\<lparr>History_Table :=
                     hash_table_access_replace (History_Table s) ppo
                       (add_entry table_line hist_entry),
                   Aux_Storage := hash_table_access_delete (Aux_Storage s) page_number\<rparr>))"

text \<open>
  The record the miss path chooses in a line: the exact match, else the signature match.
\<close>

definition select_event ::
  "Bingo_Table_Line Hash_Table \<Rightarrow> Bingo_Table_Line \<Rightarrow> Addr \<Rightarrow> Addr \<Rightarrow> nat option" where
  "select_event H table_line ppa ppo =
     (case pref_bingo_find_event_to_fetch_addr H table_line ppa of
        Some i \<Rightarrow> Some i
      | None \<Rightarrow> pref_bingo_find_event_to_fetch H table_line ppo)"

definition pref_bingo_ul1_miss ::
  "nat \<Rightarrow> bingo_state \<Rightarrow> uns8 \<Rightarrow> Addr \<Rightarrow> Addr \<Rightarrow> uns32 \<Rightarrow> bingo_state" where
  "pref_bingo_ul1_miss lg s proc_id lineAddr loadPC global_hist =
     (let block_address = push_bit 6 (drop_bit 6 lineAddr);
          ppo = loadPC + block_address;
          ppa = loadPC + lineAddr;
          page_number = bingo_get_page_number lineAddr
      in case hash_table_access (History_Table s) ppo of
           None \<Rightarrow> update_footprint s lineAddr loadPC
         | Some l \<Rightarrow>
             (case select_event (History_Table s) l ppa ppo of
                Some i \<Rightarrow>
                  s\<lparr>ul1req_queue :=
                      pref_bingo_prefetch lg (hwp_in_id s) (ul1req_queue s) (line l ! i)
                        proc_id page_number,
                    History_Table :=
                      store_through (History_Table s) ppo (mark_used_by_address l ppa)\<rparr>
              | None \<Rightarrow> update_footprint s lineAddr loadPC))"

subsection \<open>Callback sequences\<close>

datatype event =
  Hit uns8 Addr Addr uns32
| Miss uns8 Addr Addr uns32
| Evict uns8 Addr

fun step :: "nat \<Rightarrow> bingo_state \<Rightarrow> event \<Rightarrow> bingo_state" where
  "step lg s (Hit p a c g) = pref_bingo_ul1_hit s p a c g"
| "step lg s (Miss p a c g) = pref_bingo_ul1_miss lg s p a c g"
| "step lg s (Evict p a) = pref_bingo_ul1_cache_evict s p a"

definition run :: "nat \<Rightarrow> bingo_state \<Rightarrow> event list \<Rightarrow> bingo_state" where
  "run lg s evs = foldl (step lg) s evs"

subsection \<open>Well-formed lines and states\<close>

text \<open>
  A line is well formed when at most 16 slots are occupied, both arrays have their 16
  cells, and the first \<open>current_size\<close> cells of \<open>usage_order\<close> hold each occupied slot
  index \<open>0, ..., current_size - 1\<close> once.
\<close>

definition wf_line :: "Bingo_Table_Line \<Rightarrow> bool" where
  "wf_line l \<longleftrightarrow>
     current_size l \<le> 16 \<and> length (line l) = 16 \<and> length (usage_order l) = 16 \<and>
     distinct (take (current_size l) (usage_order l)) \<and>
     set (take (current_size l) (usage_order l)) = {0..<current_size l}"

text \<open>
  A state is well formed when every line of the history table is well formed, is not
  empty and holds only records whose signature is the key of the line, and every live
  footprint has its 64 flags.
\<close>

definition state_inv :: "bingo_state \<Rightarrow> bool" where
  "state_inv s \<longleftrightarrow>
     (\<forall>k l. hash_table_access (History_Table s) k = Some l \<longrightarrow>
        wf_line l \<and> 0 < current_size l \<and>
        (\<forall>i<current_size l. pc_plus_offset (line l ! i) = k)) \<and>
     (\<forall>p e. hash_table_access (Aux_Storage s) p = Some e \<longrightarrow>
        length (accessed (footprint e)) = 64)"

subsection \<open>What a miss selects\<close>

text \<open>
  The signature under which the eviction path stores a record, and the one under which
  the miss path looks a line up.
\<close>

definition commit_signature :: "Addr \<Rightarrow> Addr \<Rightarrow> Addr" where
  "commit_signature trigger_pc lineAddr = trigger_pc + drop_bit 6 lineAddr"

definition miss_signature :: "Addr \<Rightarrow> Addr \<Rightarrow> Addr" where
  "miss_signature loadPC lineAddr = loadPC + push_bit 6 (drop_bit 6 lineAddr)"

text \<open>
  The line and the slot from which a miss at \<open>lineAddr\<close> by \<open>loadPC\<close> prefetches, if it
  does: the line found under the miss signature and the slot \<open>select_event\<close> returns.
\<close>

definition miss_selection ::
  "bingo_state \<Rightarrow> Addr \<Rightarrow> Addr \<Rightarrow> (Bingo_Table_Line \<times> nat) option" where
  "miss_selection s lineAddr loadPC =
     (case hash_table_access (History_Table s) (miss_signature loadPC lineAddr) of
        None \<Rightarrow> None
      | Some l \<Rightarrow>
          map_option (Pair l)
            (select_event (History_Table s) l (loadPC + lineAddr)
               (miss_signature loadPC lineAddr)))"

text \<open>
  The line stored under a signature (the zeroed line when there is none, as the eviction
  path takes it), and the slot at the front of a line's recency order.
\<close>

definition bucket_of :: "bingo_state \<Rightarrow> Addr \<Rightarrow> Bingo_Table_Line" where
  "bucket_of s k =
     (case hash_table_access (History_Table s) k of None \<Rightarrow> zero_Table_Line | Some l \<Rightarrow> l)"

definition front_slot :: "Bingo_Table_Line \<Rightarrow> nat" where
  "front_slot l = usage_order l ! 0"

subsection \<open>The searches without the emptiness guard\<close>

text \<open>
  The two searches as the spec proposes them: the test of \<^verbatim>\<open>History_Table.count\<close>
  left out.
\<close>

definition find_event_to_fetch_no_guard :: "Bingo_Table_Line \<Rightarrow> Addr \<Rightarrow> nat option" where
  "find_event_to_fetch_no_guard table_line ppo =
     map_option (\<lambda>i. usage_order table_line ! i)
       (find (\<lambda>i. pc_plus_offset (line table_line ! (usage_order table_line ! i)) = ppo)
          [0..<current_size table_line])"

definition find_event_to_fetch_addr_no_guard :: "Bingo_Table_Line \<Rightarrow> Addr \<Rightarrow> nat option" where
  "find_event_to_fetch_addr_no_guard table_line ppa =
     map_option (\<lambda>i. usage_order table_line ! i)
       (find (\<lambda>i. pc_plus_address (line table_line ! (usage_order table_line ! i)) = ppa)
          [0..<current_size table_line])"

subsection \<open>Concrete callback sequences\<close>

text \<open>
  A record is committed under signature 64 (trigger pc 64, line 0), then page 0 is
  tracked again: a miss at address 64 by pc 0 then finds that record.
\<close>

definition predicted_miss_trace :: "event list" where
  "predicted_miss_trace = [Hit 0 0 64 0, Evict 0 0, Hit 0 0 0 0]"

text \<open>A history table with one line, holding one record.\<close>

definition one_record_table :: "Bingo_Table_Line Hash_Table" where
  "one_record_table =
     [(5, add_entry zero_Table_Line
            \<lparr>pc_plus_address = 9, pc_plus_offset = 5, entry = zero_Aux_Entry\<rparr>)]"

text \<open>
  Page 0 is committed twice on the eviction of line 0 with trigger pc 0, the second time
  with one more block in its footprint: the line under signature 0 then holds two
  records with the same \<open>pc_plus_address\<close>.
\<close>

definition duplicate_key_trace :: "event list" where
  "duplicate_key_trace = [Hit 0 0 0 0, Evict 0 0, Hit 0 0 0 0, Hit 0 64 0 0, Evict 0 0]"

text \<open>
  Two commits under signature 0 with different exact keys: line 0 with trigger pc 0
  (exact key 0), then line 64 with trigger pc \<open>-1\<close> (exact key 63), which is the more
  recent one.
\<close>

definition exact_and_signature_trace :: "event list" where
  "exact_and_signature_trace = [Hit 0 0 0 0, Evict 0 0, Hit 0 64 (- 1) 0, Evict 0 64]"

text \<open>
  The end-to-end scenario of the spec: a miss at \<open>X\<close> by instruction \<open>I\<close>, a hit at
  \<open>X'\<close>, the eviction of \<open>X\<close>, and a later miss at \<open>Y\<close> by the same instruction. The
  record that the eviction commits when \<open>X\<close> and \<open>X'\<close> are blocks 0 and 1 of one page is
  \<open>learned_record\<close>. \<open>line_zero_trace\<close> is the first three callbacks for \<open>X = 0\<close>,
  \<open>X' = 64\<close> and \<open>I = 0x400\<close>.
\<close>

definition end_to_end_trace :: "uns8 \<Rightarrow> Addr \<Rightarrow> Addr \<Rightarrow> Addr \<Rightarrow> Addr \<Rightarrow> event list" where
  "end_to_end_trace p I X X' Y = [Miss p X I 0, Hit p X' I 0, Evict p X, Miss p Y I 0]"

definition learned_record :: "Addr \<Rightarrow> Addr \<Rightarrow> Bingo_History_Table" where
  "learned_record I X =
     \<lparr>pc_plus_address = I + X, pc_plus_offset = commit_signature I X,
      entry = set_accessed (set_accessed (zero_Aux_Entry\<lparr>trigger_addr := X, pc := I\<rparr>) 0) 1\<rparr>"

definition line_zero_trace :: "event list" where
  "line_zero_trace = [Miss 0 0 0x400 0, Hit 0 64 0x400 0, Evict 0 0]"

subsection \<open>Sequences of operations on one line\<close>

text \<open>
  The two operations that change a line, and their application in sequence from a given
  line.
\<close>

datatype bucket_op = Add Bingo_History_Table | Mark Addr

fun apply_op :: "Bingo_Table_Line \<Rightarrow> bucket_op \<Rightarrow> Bingo_Table_Line" where
  "apply_op l (Add e) = add_entry l e"
| "apply_op l (Mark a) = mark_used_by_address l a"

definition run_ops :: "Bingo_Table_Line \<Rightarrow> bucket_op list \<Rightarrow> Bingo_Table_Line" where
  "run_ops l ops = foldl apply_op l ops"

text \<open>
  A record with given keys and trigger address. Sixteen insertions of records that all
  have the key pair \<open>(1, 1)\<close>, and sixteen insertions of records with the exact keys
  \<open>0, ..., 15\<close>.
\<close>

definition keyed_record :: "Addr \<Rightarrow> Addr \<Rightarrow> Addr \<Rightarrow> Bingo_History_Table" where
  "keyed_record ppa ppo t =
     \<lparr>pc_plus_address = ppa, pc_plus_offset = ppo, entry = zero_Aux_Entry\<lparr>trigger_addr := t\<rparr>\<rparr>"

definition same_key_ops :: "bucket_op list" where
  "same_key_ops = map (\<lambda>n. Add (keyed_record 1 1 (of_nat n))) [0..<16]"

definition distinct_key_ops :: "bucket_op list" where
  "distinct_key_ops = map (\<lambda>n. Add (keyed_record (of_nat n) 7 0)) [0..<16]"

subsection \<open>Callbacks and pages\<close>

text \<open>
  Whether a callback is a hit or a miss in page \<open>P\<close>, and whether it is the eviction of
  a line of page \<open>P\<close>.
\<close>

fun touches_page :: "Addr \<Rightarrow> event \<Rightarrow> bool" where
  "touches_page P (Hit p a c g) = (bingo_get_page_number a = P)"
| "touches_page P (Miss p a c g) = (bingo_get_page_number a = P)"
| "touches_page P (Evict p a) = False"

fun evicts_page :: "Addr \<Rightarrow> event \<Rightarrow> bool" where
  "evicts_page P (Evict p a) = (bingo_get_page_number a = P)"
| "evicts_page P (Hit p a c g) = False"
| "evicts_page P (Miss p a c g) = False"

text \<open>A state in which page 0 is tracked, with blocks 0 and 1 in its footprint.\<close>

definition tracked_page_state :: bingo_state where
  "tracked_page_state = run 6 (pref_bingo_init 7) [Hit 0 0 0 0, Hit 0 64 0 0]"

text \<open>
  The record that the eviction of address \<open>a\<close> commits for the live record \<open>e\<close> of the
  page of \<open>a\<close>: its exact key is the trigger pc plus the evicted address, its signature
  the key of the line it goes to, and it holds \<open>e\<close> as it is.
\<close>

definition committed_record :: "Aux_Entry \<Rightarrow> Addr \<Rightarrow> Bingo_History_Table" where
  "committed_record e a =
     \<lparr>pc_plus_address = pc e + a, pc_plus_offset = commit_signature (pc e) a, entry = e\<rparr>"

text \<open>The state after the eviction of line 0 in \<open>tracked_page_state\<close>.\<close>

definition tracked_page_commit :: bingo_state where
  "tracked_page_commit = pref_bingo_ul1_cache_evict tracked_page_state 0 0"

subsection \<open>Exact keys of a line\<close>

text \<open>
  The \<open>pc_plus_address\<close> of the occupied slots of a line, in slot order. An eviction is
  fresh when the record it commits, if it commits one, has a \<open>pc_plus_address\<close> that no
  occupied slot of its line holds. A state has no duplicates when no line of its history
  table holds one \<open>pc_plus_address\<close> in two occupied slots.
\<close>

definition exact_keys :: "Bingo_Table_Line \<Rightarrow> Addr list" where
  "exact_keys l = map pc_plus_address (take (current_size l) (line l))"









subsection \<open>Footprints and the blocks recorded in them\<close>

text \<open>
  The block indices whose flag is set in a live record, in increasing order. The block
  that a callback records in the footprint of page \<open>P\<close>: the block of a hit in \<open>P\<close>, and the
  block of a miss in \<open>P\<close> on which no record is selected (the two learning branches of
  the miss path); a miss that prefetches and an eviction record nothing. The blocks
  recorded along a callback sequence.
\<close>

definition footprint_blocks :: "Aux_Entry \<Rightarrow> nat list" where
  "footprint_blocks e = filter (\<lambda>i. accessed (footprint e) ! i) [0..<64]"

fun recorded_block :: "bingo_state \<Rightarrow> Addr \<Rightarrow> event \<Rightarrow> nat option" where
  "recorded_block s P (Hit p a c g) =
     (if bingo_get_page_number a = P then Some (bingo_get_block_index a) else None)"
| "recorded_block s P (Miss p a c g) =
     (if bingo_get_page_number a = P \<and> miss_selection s a c = None
      then Some (bingo_get_block_index a) else None)"
| "recorded_block s P (Evict p a) = None"

fun recorded_blocks :: "nat \<Rightarrow> bingo_state \<Rightarrow> Addr \<Rightarrow> event list \<Rightarrow> nat set" where
  "recorded_blocks lg s P [] = {}"
| "recorded_blocks lg s P (ev # evs) =
     set_option (recorded_block s P ev) \<union> recorded_blocks lg (step lg s ev) P evs"

section \<open>Properties\<close>

lemma hash_table_access_store_through:
  "hash_table_access (store_through t k v) k' = (if k' = k then Some v else hash_table_access t k')"
  by (simp add: hash_table_access_def store_through_def update_conv')

subsection \<open>The recency array\<close>

lemma shift_right_length: "length (shift_right k uo) = length uo"
  by (induction k arbitrary: uo) auto

lemma shift_right_nth:
  "k < length uo \<Longrightarrow> j < length uo \<Longrightarrow>
   shift_right k uo ! j = (if j = 0 \<or> k < j then uo ! j else uo ! (j - 1))"
proof (induction k arbitrary: uo j)
  case 0
  then show ?case by simp
next
  case (Suc k)
  then show ?case by (cases "j = Suc k") (auto simp: nth_list_update)
qed

text \<open>Shifting up to position \<open>k\<close> and writing the front moves cell \<open>k\<close> out.\<close>

lemma shift_right_eq:
  "k < length uo \<Longrightarrow>
   (shift_right k uo)[0 := x] = x # take k uo @ drop (Suc k) uo"
  by (rule nth_equalityI)
     (auto simp: shift_right_length shift_right_nth nth_list_update nth_Cons nth_append
        split: nat.splits)

lemma take_shift_right:
  assumes "k < n" "n \<le> length uo"
  shows "take n ((shift_right k uo)[0 := x]) = x # take k uo @ drop (Suc k) (take n uo)"
proof -
  from assms obtain m where n: "n = Suc m" and km: "k \<le> m"
    by (cases n) auto
  from assms have "k < length uo" by simp
  then have "take n ((shift_right k uo)[0 := x]) = take n (x # take k uo @ drop (Suc k) uo)"
    by (simp add: shift_right_eq)
  also from assms km have "\<dots> = x # take k uo @ take (m - k) (drop (Suc k) uo)"
    by (simp add: n min_absorb2 min_absorb1)
  also have "take (m - k) (drop (Suc k) uo) = drop (Suc k) (take n uo)"
    by (simp add: drop_take n)
  finally show ?thesis .
qed

lemma split_at_nth:
  assumes "k < n" "n \<le> length uo"
  shows "take n uo = take k uo @ uo ! k # drop (Suc k) (take n uo)"
proof -
  from assms have "k < length (take n uo)" by simp
  from id_take_nth_drop [OF this] assms show ?thesis by (simp add: min_def)
qed

lemma perm_promote:
  assumes "i < n" "n \<le> length uo" "distinct (take n uo)"
  shows "distinct (take n ((shift_right i uo)[0 := uo ! i]))"
    and "set (take n ((shift_right i uo)[0 := uo ! i])) = set (take n uo)"
proof -
  have new: "take n ((shift_right i uo)[0 := uo ! i])
      = uo ! i # take i uo @ drop (Suc i) (take n uo)"
    using assms by (simp add: take_shift_right)
  have old: "take n uo = take i uo @ uo ! i # drop (Suc i) (take n uo)"
    using split_at_nth [OF assms(1,2)] .
  from assms(3) have "distinct (take i uo @ uo ! i # drop (Suc i) (take n uo))"
    using old by simp
  then show "distinct (take n ((shift_right i uo)[0 := uo ! i]))"
    unfolding new by auto
  have "set (take n uo) = set (take i uo @ uo ! i # drop (Suc i) (take n uo))"
    using old by simp
  then show "set (take n ((shift_right i uo)[0 := uo ! i])) = set (take n uo)"
    unfolding new by auto
qed

subsection \<open>Insertion and promotion keep a line well formed\<close>

lemma add_entry_free:
  assumes "current_size l < 16"
  shows "add_entry l e =
    \<lparr>line = (line l)[current_size l := e],
     usage_order = (shift_right (current_size l) (usage_order l))[0 := current_size l],
     current_size = Suc (current_size l)\<rparr>"
  using assms by (simp add: add_entry_def Let_def)

lemma add_entry_full:
  assumes "\<not> current_size l < 16"
  shows "add_entry l e =
    \<lparr>line = (line l)[usage_order l ! 15 := e],
     usage_order = (shift_right 15 (usage_order l))[0 := usage_order l ! 15],
     current_size = current_size l\<rparr>"
  using assms by (simp add: add_entry_def Let_def)

lemma wf_zero_Table_Line: "wf_line zero_Table_Line"
  by (simp add: wf_line_def zero_Table_Line_def)

lemma wf_add_entry:
  assumes "wf_line l"
  shows "wf_line (add_entry l e)"
proof (cases "current_size l < 16")
  case True
  define n where "n = current_size l"
  define uo where "uo = usage_order l"
  from assms have wf: "length (line l) = 16" "length uo = 16" "distinct (take n uo)"
    "set (take n uo) = {0..<n}"
    by (simp_all add: wf_line_def n_def uo_def)
  from True have n: "n < 16" by (simp add: n_def)
  with wf have new: "take (Suc n) ((shift_right n uo)[0 := n]) = n # take n uo"
    by (simp add: take_shift_right)
  from wf have "distinct (n # take n uo)" by simp
  moreover from wf have "set (n # take n uo) = {0..<Suc n}"
    by (simp add: atLeast0_lessThan_Suc)
  moreover from n have "Suc n \<le> 16" by simp
  ultimately have "wf_line \<lparr>line = (line l)[n := e],
     usage_order = (shift_right n uo)[0 := n], current_size = Suc n\<rparr>"
    unfolding wf_line_def using wf(1,2) new by (simp add: shift_right_length)
  with True show ?thesis by (simp add: add_entry_free n_def uo_def)
next
  case False
  define n where "n = current_size l"
  define uo where "uo = usage_order l"
  from False assms have n: "15 < n" "n \<le> 16" by (simp_all add: wf_line_def n_def)
  from assms have wf: "length (line l) = 16" "length uo = 16" "distinct (take n uo)"
    "set (take n uo) = {0..<n}"
    by (simp_all add: wf_line_def n_def uo_def)
  from wf n have "n \<le> length uo" by simp
  from perm_promote [OF n(1) this wf(3)] wf(4)
  have "distinct (take n ((shift_right 15 uo)[0 := uo ! 15]))"
    "set (take n ((shift_right 15 uo)[0 := uo ! 15])) = {0..<n}"
    by simp_all
  then have "wf_line \<lparr>line = (line l)[uo ! 15 := e],
     usage_order = (shift_right 15 uo)[0 := uo ! 15], current_size = n\<rparr>"
    unfolding wf_line_def using wf(1,2) n by (simp add: shift_right_length)
  with False show ?thesis by (simp add: add_entry_full uo_def n_def)
qed

lemma wf_mark_used_by_address:
  assumes "wf_line l"
  shows "wf_line (mark_used_by_address l a)"
proof (cases "find (\<lambda>i. pc_plus_address (line l ! i) = a) [0..<current_size l]")
  case None
  with assms show ?thesis by (simp add: mark_used_by_address_def)
next
  case found: (Some f)
  show ?thesis
  proof (cases "find (\<lambda>i. usage_order l ! i = f) [0..<current_size l]")
    case None
    with found assms show ?thesis by (simp add: mark_used_by_address_def)
  next
    case (Some i)
    then have i: "i < current_size l" "usage_order l ! i = f"
      by (auto simp: find_Some_iff)
    from assms have "current_size l \<le> length (usage_order l)"
      "distinct (take (current_size l) (usage_order l))"
      by (simp_all add: wf_line_def)
    from perm_promote [OF i(1) this] i(2) assms Some found show ?thesis
      by (simp add: wf_line_def mark_used_by_address_def shift_right_length)
  qed
qed

lemma block_index_less: "bingo_get_block_index a < 64"
proof -
  have "unat (a AND 4095) \<le> unat (4095 :: Addr)"
    by (rule word_and_le1 [THEN word_le_nat_alt [THEN iffD1]])
  then have "unat (a AND 4095) < 4096" by simp
  then have "unat (a AND 4095) div 64 < 64" by simp
  then show ?thesis
    by (simp add: bingo_get_block_index_def unat_drop_bit_eq drop_bit_eq_div unat_div)
qed

subsection \<open>The miss path, by what it selects\<close>

lemma miss_unfold:
  "pref_bingo_ul1_miss lg s p a c g =
     (case miss_selection s a c of
        None \<Rightarrow> update_footprint s a c
      | Some (l, i) \<Rightarrow>
          s\<lparr>ul1req_queue :=
              pref_bingo_prefetch lg (hwp_in_id s) (ul1req_queue s) (line l ! i) p
                (bingo_get_page_number a),
            History_Table :=
              store_through (History_Table s) (miss_signature c a)
                (mark_used_by_address l (c + a))\<rparr>)"
  by (simp add: pref_bingo_ul1_miss_def miss_selection_def miss_signature_def Let_def
      split: option.splits)

subsection \<open>Every reachable state is well formed\<close>

lemma access_replace:
  "hash_table_access (hash_table_access_replace t k v) k' =
     (if k' = k then Some v else hash_table_access t k')"
  by (simp add: hash_table_access_def hash_table_access_replace_def update_conv')

lemma access_delete:
  "hash_table_access (hash_table_access_delete t k) k' =
     (if k' = k then None else hash_table_access t k')"
  by (simp add: hash_table_access_def hash_table_access_delete_def delete_conv')

lemma mark_used_line [simp]: "line (mark_used_by_address l a) = line l"
  by (simp add: mark_used_by_address_def split: option.splits)

lemma mark_used_size [simp]: "current_size (mark_used_by_address l a) = current_size l"
  by (simp add: mark_used_by_address_def split: option.splits)

lemma add_entry_size:
  "current_size (add_entry l e) = (if current_size l < 16 then Suc (current_size l) else current_size l)"
  by (simp add: add_entry_def Let_def)

lemma add_entry_line:
  "line (add_entry l e) =
     (line l)[(if current_size l < 16 then current_size l else usage_order l ! 15) := e]"
  by (simp add: add_entry_def Let_def)

lemma add_entry_signature:
  assumes "length (line l) = 16" "current_size l \<le> 16"
    and "\<forall>i<current_size l. pc_plus_offset (line l ! i) = k"
    and "pc_plus_offset e = k"
  shows "\<forall>i<current_size (add_entry l e). pc_plus_offset (line (add_entry l e) ! i) = k"
proof (intro allI impI)
  fix i
  assume i: "i < current_size (add_entry l e)"
  show "pc_plus_offset (line (add_entry l e) ! i) = k"
  proof (cases "current_size l < 16")
    case True
    with i assms show ?thesis
      by (cases "i = current_size l") (simp_all add: add_entry_free)
  next
    case False
    with i assms show ?thesis
      by (cases "i = usage_order l ! 15") (simp_all add: add_entry_full nth_list_update)
  qed
qed

lemma set_accessed_length [simp]:
  "length (accessed (footprint (set_accessed e b))) = length (accessed (footprint e))"
  by (simp add: set_accessed_def)

lemma state_inv_update_footprint:
  assumes "state_inv s"
  shows "state_inv (update_footprint s a c)"
  using assms
  by (auto simp: state_inv_def update_footprint_def Let_def hash_table_access_store_through
      access_replace zero_Aux_Entry_def split: option.splits if_splits)

lemma state_inv_evict:
  assumes "state_inv s"
  shows "state_inv (pref_bingo_ul1_cache_evict s p a)"
proof (cases "hash_table_access (Aux_Storage s) (bingo_get_page_number a)")
  case None
  with assms show ?thesis by (simp add: pref_bingo_ul1_cache_evict_def)
next
  case (Some e)
  define k where "k = pc e + drop_bit 6 a"
  define r where "r = \<lparr>pc_plus_address = pc e + a, pc_plus_offset = k, entry = e\<rparr>"
  define l where "l = (case hash_table_access (History_Table s) k of
     None \<Rightarrow> zero_Table_Line | Some l \<Rightarrow> l)"
  have ev: "pref_bingo_ul1_cache_evict s p a =
    s\<lparr>History_Table := hash_table_access_replace (History_Table s) k (add_entry l r),
      Aux_Storage := hash_table_access_delete (Aux_Storage s) (bingo_get_page_number a)\<rparr>"
    using Some by (simp add: pref_bingo_ul1_cache_evict_def Let_def k_def r_def l_def)
  have wf: "wf_line l" and sig: "\<forall>i<current_size l. pc_plus_offset (line l ! i) = k"
  proof -
    show "wf_line l"
      using assms by (auto simp: l_def state_inv_def wf_zero_Table_Line split: option.splits)
    show "\<forall>i<current_size l. pc_plus_offset (line l ! i) = k"
      using assms by (auto simp: l_def state_inv_def zero_Table_Line_def split: option.splits)
  qed
  then have len: "length (line l) = 16" "current_size l \<le> 16" by (simp_all add: wf_line_def)
  have 1: "wf_line (add_entry l r)" using wf by (rule wf_add_entry)
  have 2: "0 < current_size (add_entry l r)" by (simp add: add_entry_size)
  have 3: "\<forall>i<current_size (add_entry l r). pc_plus_offset (line (add_entry l r) ! i) = k"
    using len sig by (rule add_entry_signature) (simp add: r_def)
  from assms 1 2 3 show ?thesis
    unfolding ev state_inv_def
    by (auto simp: access_replace access_delete split: if_splits)
qed

lemma state_inv_miss:
  assumes "state_inv s"
  shows "state_inv (pref_bingo_ul1_miss lg s p a c g)"
proof (cases "miss_selection s a c")
  case None
  with assms show ?thesis by (simp add: miss_unfold state_inv_update_footprint)
next
  case (Some li)
  obtain l i where li: "li = (l, i)" by (cases li)
  with Some have l: "hash_table_access (History_Table s) (miss_signature c a) = Some l"
    by (auto simp: miss_selection_def split: option.splits)
  with assms have "wf_line l" "0 < current_size l"
    "\<forall>i<current_size l. pc_plus_offset (line l ! i) = miss_signature c a"
    by (auto simp: state_inv_def)
  with assms Some li show ?thesis
    by (auto simp: miss_unfold state_inv_def hash_table_access_store_through
        wf_mark_used_by_address split: if_splits)
qed

lemma state_inv_step:
  "state_inv s \<Longrightarrow> state_inv (step lg s ev)"
  by (cases ev) (simp_all add: pref_bingo_ul1_hit_def state_inv_update_footprint
      state_inv_evict state_inv_miss)

lemma state_inv_run:
  "state_inv s \<Longrightarrow> state_inv (run lg s evs)"
  unfolding run_def by (induction evs arbitrary: s) (simp_all add: state_inv_step)

lemma state_inv_init: "state_inv (pref_bingo_init hid)"
  by (simp add: state_inv_def pref_bingo_init_def hash_table_access_def)

lemma state_inv_reachable: "state_inv (run lg (pref_bingo_init hid) evs)"
  by (simp add: state_inv_run state_inv_init)

subsection \<open>Searching and promoting in a well-formed line\<close>

lemma find_upt_Some:
  "find P [0..<n] = Some i \<longleftrightarrow> i < n \<and> P i \<and> (\<forall>j<i. \<not> P j)"
  by (auto simp: find_Some_iff)

lemma find_upt_None: "find P [0..<n] = None \<longleftrightarrow> (\<forall>i<n. \<not> P i)"
  by (auto simp: find_None_iff)

lemma wf_line_order_less:
  assumes "wf_line l" "p < current_size l"
  shows "usage_order l ! p < current_size l"
proof -
  from assms have "p < length (take (current_size l) (usage_order l))"
    by (simp add: wf_line_def)
  then have "take (current_size l) (usage_order l) ! p
      \<in> set (take (current_size l) (usage_order l))"
    by (rule nth_mem)
  with assms show ?thesis by (simp add: wf_line_def)
qed

lemma wf_line_slot_position:
  assumes "wf_line l" "j < current_size l"
  shows "\<exists>p<current_size l. usage_order l ! p = j"
proof -
  from assms have "j \<in> set (take (current_size l) (usage_order l))"
    by (simp add: wf_line_def)
  then show ?thesis by (auto simp: in_set_conv_nth)
qed

lemma find_addr_no_guard_Some:
  assumes "wf_line l" "j < current_size l" "pc_plus_address (line l ! j) = q"
  shows "\<exists>i. find_event_to_fetch_addr_no_guard l q = Some i \<and> i < current_size l
    \<and> pc_plus_address (line l ! i) = q"
proof -
  from wf_line_slot_position [OF assms(1,2)] obtain p
    where p: "p < current_size l" "usage_order l ! p = j" by blast
  with assms(3) have "\<not> (\<forall>i<current_size l.
      \<not> pc_plus_address (line l ! (usage_order l ! i)) = q)" by auto
  then obtain p' where
    f: "find (\<lambda>i. pc_plus_address (line l ! (usage_order l ! i)) = q) [0..<current_size l]
        = Some p'"
    unfolding find_upt_None [symmetric] by auto
  then have "p' < current_size l" "pc_plus_address (line l ! (usage_order l ! p')) = q"
    by (simp_all add: find_upt_Some)
  with f assms(1) show ?thesis
    by (simp add: find_event_to_fetch_addr_no_guard_def wf_line_order_less)
qed

lemma find_addr_no_guard_None:
  assumes "wf_line l" "find_event_to_fetch_addr_no_guard l q = None" "j < current_size l"
  shows "pc_plus_address (line l ! j) \<noteq> q"
  using find_addr_no_guard_Some [OF assms(1,3)] assms(2) by auto

lemma access_count: "hash_table_access H k = Some l \<Longrightarrow> count H \<noteq> 0"
  by (auto simp: hash_table_access_def count_def)

lemma find_eq_no_guard:
  "count H \<noteq> 0 \<Longrightarrow> pref_bingo_find_event_to_fetch H l k = find_event_to_fetch_no_guard l k"
  by (simp add: pref_bingo_find_event_to_fetch_def find_event_to_fetch_no_guard_def)

lemma find_addr_eq_no_guard:
  "count H \<noteq> 0 \<Longrightarrow>
   pref_bingo_find_event_to_fetch_addr H l q = find_event_to_fetch_addr_no_guard l q"
  by (simp add: pref_bingo_find_event_to_fetch_addr_def find_event_to_fetch_addr_no_guard_def)

lemma select_event_no_guard:
  assumes "hash_table_access H k = Some l"
  shows "select_event H l q k' =
    (case find_event_to_fetch_addr_no_guard l q of
       Some i \<Rightarrow> Some i | None \<Rightarrow> find_event_to_fetch_no_guard l k')"
proof -
  note c = access_count [OF assms]
  show ?thesis
    unfolding select_event_def find_eq_no_guard [OF c] find_addr_eq_no_guard [OF c] ..
qed

lemma mark_used_front:
  assumes "wf_line l" "i < current_size l" "pc_plus_address (line l ! i) = q"
    and "\<forall>j<current_size l. pc_plus_address (line l ! j) = q \<longrightarrow> j = i"
  shows "usage_order (mark_used_by_address l q) ! 0 = i"
proof -
  from assms(2,3) have "\<not> (\<forall>j<current_size l. \<not> pc_plus_address (line l ! j) = q)" by auto
  then obtain f where
    f: "find (\<lambda>j. pc_plus_address (line l ! j) = q) [0..<current_size l] = Some f"
    unfolding find_upt_None [symmetric] by auto
  then have "f < current_size l" "pc_plus_address (line l ! f) = q"
    by (simp_all add: find_upt_Some)
  with assms(4) have fi: "f = i" by simp
  from wf_line_slot_position [OF assms(1,2)]
  have "\<not> (\<forall>p<current_size l. \<not> usage_order l ! p = i)" by auto
  then obtain p where
    p: "find (\<lambda>p. usage_order l ! p = i) [0..<current_size l] = Some p"
    unfolding find_upt_None [symmetric] by auto
  from assms(1,2) have "0 < length (usage_order l)" by (simp add: wf_line_def)
  with f fi p show ?thesis
    by (simp add: mark_used_by_address_def shift_right_length)
qed

lemma mark_used_absent:
  assumes "\<forall>j<current_size l. pc_plus_address (line l ! j) \<noteq> q"
  shows "mark_used_by_address l q = l"
proof -
  from assms have "find (\<lambda>j. pc_plus_address (line l ! j) = q) [0..<current_size l] = None"
    by (simp add: find_upt_None)
  then show ?thesis by (simp add: mark_used_by_address_def)
qed

lemma find_no_guard_front:
  assumes "wf_line l" "0 < current_size l"
    and "\<forall>i<current_size l. pc_plus_offset (line l ! i) = k"
  shows "find_event_to_fetch_no_guard l k = Some (usage_order l ! 0)"
proof -
  from assms have "pc_plus_offset (line l ! (usage_order l ! 0)) = k"
    by (simp add: wf_line_order_less)
  with assms(2)
  have "find (\<lambda>i. pc_plus_offset (line l ! (usage_order l ! i)) = k) [0..<current_size l]
    = Some 0"
    by (simp add: find_upt_Some)
  then show ?thesis by (simp add: find_event_to_fetch_no_guard_def)
qed

subsection \<open>The emitter and the end-to-end scenario\<close>

lemma fold_emit:
  "fold (\<lambda>i q. if P i then q @ [f i] else q) xs q = q @ map f (filter P xs)"
  by (induction xs arbitrary: q) auto

lemma prefetch_request_eq:
  "prefetch_request lg hid p base i = (p, ucast (drop_bit lg (base + of_nat i * 64)), hid)"
  by (simp add: prefetch_request_def push_bit_eq_mult)

lemma pref_bingo_prefetch_eq:
  "pref_bingo_prefetch lg hid q r p page =
     q @ map (\<lambda>i. (p, ucast (drop_bit lg (bingo_get_page_base_from_number page + of_nat i * 64)), hid))
           (filter (\<lambda>i. accessed (footprint (entry r)) ! i) [0..<64])"
  unfolding pref_bingo_prefetch_def Let_def fold_emit prefetch_request_eq ..

lemma set_accessed_pc [simp]: "pc (set_accessed e b) = pc e"
  by (simp add: set_accessed_def)

lemma set_accessed_trigger_addr [simp]: "trigger_addr (set_accessed e b) = trigger_addr e"
  by (simp add: set_accessed_def)

lemma learned_state:
  assumes "bingo_get_page_number X' = bingo_get_page_number X"
    and "bingo_get_block_index X = 0" and "bingo_get_block_index X' = 1"
  shows "run lg (pref_bingo_init hid) [Miss p X I g, Hit p X' I g', Evict p X] =
    \<lparr>History_Table = [(commit_signature I X, add_entry zero_Table_Line (learned_record I X))],
     Aux_Storage = [], hwp_in_id = hid, ul1req_queue = []\<rparr>"
  using assms
  by (simp add: run_def pref_bingo_init_def pref_bingo_ul1_miss_def pref_bingo_ul1_hit_def
      pref_bingo_ul1_cache_evict_def update_footprint_def hash_table_access_def
      hash_table_access_replace_def hash_table_access_delete_def store_through_def
      commit_signature_def learned_record_def Let_def)

lemma learned_footprint:
  "filter (\<lambda>i. accessed (footprint (entry (learned_record I X))) ! i) [0..<64] = [0, 1]"
proof -
  have "filter (\<lambda>i. (replicate 64 False)[0 := True, 1 := True] ! i) [0..<64] = [0, 1]"
    by code_simp
  then show ?thesis
    by (simp only: learned_record_def set_accessed_def zero_Aux_Entry_def
        Aux_Entry.simps Bingo_History_Table.simps Footprint.simps)
qed

lemma learned_line:
  "add_entry zero_Table_Line r =
     \<lparr>line = (replicate 16 zero_History_Entry)[0 := r],
      usage_order = (replicate 16 0)[0 := 0], current_size = Suc 0\<rparr>"
  by (simp add: add_entry_free zero_Table_Line_def)

lemma ucast_back:
  fixes w :: Addr
  assumes "unat w < 2 ^ 32"
  shows "(ucast (ucast w :: uns) :: Addr) = w"
proof -
  have "unat (ucast (ucast w :: uns) :: Addr) = unat w"
    using assms by (simp add: unsigned_ucast_eq unsigned_take_bit_eq take_bit_nat_eq_self)
  then show ?thesis by (simp only: word_unat_eq_iff)
qed

subsection \<open>Sequences of insertions and promotions\<close>

lemma wf_apply_op: "wf_line l \<Longrightarrow> wf_line (apply_op l x)"
  by (cases x) (simp_all add: wf_add_entry wf_mark_used_by_address)

lemma wf_run_ops: "wf_line l \<Longrightarrow> wf_line (run_ops l ops)"
  unfolding run_ops_def by (induction ops arbitrary: l) (simp_all add: wf_apply_op)

lemma add_entry_evicts:
  assumes wf: "wf_line l" and full: "current_size l = 16"
    and others: "\<forall>j<16. j \<noteq> usage_order l ! 15 \<longrightarrow>
        pc_plus_address (line l ! j) \<noteq> a"
    and new: "pc_plus_address e \<noteq> a"
  shows "find_event_to_fetch_addr_no_guard (add_entry l e) a = None"
proof (rule ccontr)
  assume "find_event_to_fetch_addr_no_guard (add_entry l e) a \<noteq> None"
  then obtain p where p: "p < current_size (add_entry l e)"
    "pc_plus_address (line (add_entry l e) ! (usage_order (add_entry l e) ! p)) = a"
    by (auto simp: find_event_to_fetch_addr_no_guard_def find_upt_Some)
  define j where "j = usage_order (add_entry l e) ! p"
  have wf': "wf_line (add_entry l e)" using wf by (rule wf_add_entry)
  from wf_line_order_less [OF wf' p(1)] full have j: "j < 16"
    by (simp add: j_def add_entry_size)
  from wf have len: "length (line l) = 16" by (simp add: wf_line_def)
  from full have ln: "line (add_entry l e) = (line l)[usage_order l ! 15 := e]"
    by (simp add: add_entry_line)
  show False
  proof (cases "j = usage_order l ! 15")
    case True
    with p(2) j len new show False by (simp add: j_def [symmetric] ln)
  next
    case False
    with p(2) j others show False by (simp add: j_def [symmetric] ln)
  qed
qed

subsection \<open>Evictions of tracked and untracked pages\<close>

lemma run_append: "run lg s (xs @ ys) = run lg (run lg s xs) ys"
  by (simp add: run_def)

lemma run_Cons: "run lg s (x # xs) = run lg (step lg s x) xs"
  by (simp add: run_def)

lemma run_Nil: "run lg s [] = s"
  by (simp add: run_def)

lemma evict_untracked:
  "hash_table_access (Aux_Storage s) (bingo_get_page_number a) = None \<Longrightarrow>
   pref_bingo_ul1_cache_evict s p a = s"
  by (simp add: pref_bingo_ul1_cache_evict_def)

lemma evict_tracked:
  assumes "hash_table_access (Aux_Storage s) (bingo_get_page_number a) = Some e"
  shows "pref_bingo_ul1_cache_evict s p a =
    s\<lparr>History_Table :=
        hash_table_access_replace (History_Table s) (commit_signature (pc e) a)
          (add_entry (bucket_of s (commit_signature (pc e) a))
             \<lparr>pc_plus_address = pc e + a, pc_plus_offset = commit_signature (pc e) a,
              entry = e\<rparr>),
      Aux_Storage := hash_table_access_delete (Aux_Storage s) (bingo_get_page_number a)\<rparr>"
  using assms
  by (simp add: pref_bingo_ul1_cache_evict_def Let_def commit_signature_def bucket_of_def)

lemma aux_update_footprint:
  "hash_table_access (Aux_Storage (update_footprint s a c)) P =
     (if P = bingo_get_page_number a
      then Some (case hash_table_access (Aux_Storage s) P of
                   Some e \<Rightarrow> set_accessed e (bingo_get_block_index a)
                 | None \<Rightarrow> set_accessed (zero_Aux_Entry\<lparr>trigger_addr := a, pc := c\<rparr>)
                             (bingo_get_block_index a))
      else hash_table_access (Aux_Storage s) P)"
  by (simp add: update_footprint_def Let_def hash_table_access_store_through access_replace
      split: option.splits)

lemma aux_evict:
  "hash_table_access (Aux_Storage (pref_bingo_ul1_cache_evict s p a)) P =
     (if P = bingo_get_page_number a then None else hash_table_access (Aux_Storage s) P)"
  by (cases "hash_table_access (Aux_Storage s) (bingo_get_page_number a)")
     (auto simp: evict_untracked evict_tracked access_delete)

lemma aux_miss:
  "hash_table_access (Aux_Storage (pref_bingo_ul1_miss lg s p a c g)) P =
     (if miss_selection s a c = None
      then hash_table_access (Aux_Storage (update_footprint s a c)) P
      else hash_table_access (Aux_Storage s) P)"
  by (auto simp: miss_unfold split: option.splits)

lemma untracked_step:
  assumes "hash_table_access (Aux_Storage s) P = None" "\<not> touches_page P ev"
  shows "hash_table_access (Aux_Storage (step lg s ev)) P = None"
  using assms
  by (cases ev) (auto simp: pref_bingo_ul1_hit_def aux_update_footprint aux_evict aux_miss)

lemma untracked_run:
  assumes "hash_table_access (Aux_Storage s) P = None" "\<forall>ev\<in>set evs. \<not> touches_page P ev"
  shows "hash_table_access (Aux_Storage (run lg s evs)) P = None"
  using assms
proof (induction evs arbitrary: s)
  case Nil
  then show ?case by (simp add: run_Nil)
next
  case (Cons ev evs)
  then show ?case by (simp add: run_Cons untracked_step)
qed

lemma untracked_evictions:
  assumes "hash_table_access (Aux_Storage s) P = None" "\<forall>ev\<in>set evs. evicts_page P ev"
  shows "run lg s evs = s"
  using assms
proof (induction evs)
  case Nil
  then show ?case by (simp add: run_Nil)
next
  case (Cons ev evs)
  from Cons.prems(2) obtain p a where ev: "ev = Evict p a" "bingo_get_page_number a = P"
    by (cases ev) auto
  with Cons.prems(1) have "step lg s ev = s" by (simp add: evict_untracked)
  with Cons show ?case by (simp add: run_Cons)
qed

subsection \<open>Lines without duplicate exact keys\<close>

lemma exact_keys_mark_used [simp]:
  "exact_keys (mark_used_by_address l a) = exact_keys l"
  by (simp add: exact_keys_def)

lemma exact_keys_zero [simp]: "exact_keys zero_Table_Line = []"
  by (simp add: exact_keys_def zero_Table_Line_def)


lemma bucket_of_inv:
  assumes "state_inv s"
  shows "wf_line (bucket_of s k)"
  using assms
  by (auto simp: bucket_of_def state_inv_def wf_zero_Table_Line split: option.splits)




lemma history_update_footprint [simp]:
  "History_Table (update_footprint s a c) = History_Table s"
  by (simp add: update_footprint_def Let_def split: option.splits)










subsection \<open>Live footprints\<close>

lemma set_filter_upt: "set (filter P [0..<n]) = {i. i < n \<and> P i}"
  by auto

lemma footprint_blocks_set:
  "set (footprint_blocks e) = {i. i < 64 \<and> accessed (footprint e) ! i}"
  unfolding footprint_blocks_def by (rule set_filter_upt)

lemma footprint_blocks_set_accessed:
  assumes "length (accessed (footprint e)) = 64" "b < 64"
  shows "set (footprint_blocks (set_accessed e b)) = insert b (set (footprint_blocks e))"
  using assms
  by (auto simp: footprint_blocks_set set_accessed_def nth_list_update)

lemma footprint_blocks_new:
  assumes "b < 64"
  shows "set (footprint_blocks (set_accessed (zero_Aux_Entry\<lparr>trigger_addr := a, pc := c\<rparr>) b)) = {b}"
proof -
  have "accessed (footprint zero_Aux_Entry) = replicate 64 False"
    by (simp only: zero_Aux_Entry_def Aux_Entry.simps Footprint.simps)
  with assms show ?thesis
    by (auto simp: footprint_blocks_set set_accessed_def nth_list_update)
qed

lemma live_step:
  assumes inv: "state_inv s"
    and live: "hash_table_access (Aux_Storage s) P = Some e"
    and keep: "\<not> evicts_page P ev"
  shows "\<exists>e'. hash_table_access (Aux_Storage (step lg s ev)) P = Some e'
    \<and> trigger_addr e' = trigger_addr e \<and> pc e' = pc e
    \<and> set (footprint_blocks e') = set (footprint_blocks e) \<union> set_option (recorded_block s P ev)"
proof -
  from inv live have len: "length (accessed (footprint e)) = 64"
    by (auto simp: state_inv_def)
  have upd: "\<exists>e'. hash_table_access (Aux_Storage (update_footprint s a c)) P = Some e'
      \<and> trigger_addr e' = trigger_addr e \<and> pc e' = pc e
      \<and> set (footprint_blocks e') = set (footprint_blocks e)
          \<union> (if bingo_get_page_number a = P then {bingo_get_block_index a} else {})" for a c
    using live len
    by (auto simp: aux_update_footprint footprint_blocks_set_accessed block_index_less)
  show ?thesis
  proof (cases ev)
    case (Hit p a c g)
    with upd [of a c] show ?thesis by (auto simp: pref_bingo_ul1_hit_def)
  next
    case (Miss p a c g)
    show ?thesis
    proof (cases "miss_selection s a c")
      case None
      with upd [of a c] Miss show ?thesis by (auto simp: aux_miss)
    next
      case (Some li)
      with live Miss show ?thesis by (simp add: aux_miss)
    qed
  next
    case (Evict p a)
    with keep live show ?thesis by (simp add: aux_evict)
  qed
qed

lemma live_run:
  assumes "state_inv s"
    and "hash_table_access (Aux_Storage s) P = Some e"
    and "\<forall>ev\<in>set evs. \<not> evicts_page P ev"
  shows "\<exists>e'. hash_table_access (Aux_Storage (run lg s evs)) P = Some e'
    \<and> trigger_addr e' = trigger_addr e \<and> pc e' = pc e
    \<and> set (footprint_blocks e') = set (footprint_blocks e) \<union> recorded_blocks lg s P evs"
  using assms
proof (induction evs arbitrary: s e)
  case Nil
  then show ?case by (simp add: run_Nil)
next
  case (Cons ev evs)
  from Cons.prems have keep: "\<not> evicts_page P ev" by simp
  from live_step [OF Cons.prems(1,2) keep, of lg] obtain e1 where
    e1: "hash_table_access (Aux_Storage (step lg s ev)) P = Some e1"
      "trigger_addr e1 = trigger_addr e" "pc e1 = pc e"
      "set (footprint_blocks e1) = set (footprint_blocks e) \<union> set_option (recorded_block s P ev)"
    by blast
  from Cons.prems(1) have inv1: "state_inv (step lg s ev)" by (rule state_inv_step)
  from Cons.prems(3) have rest: "\<forall>ev\<in>set evs. \<not> evicts_page P ev" by simp
  from Cons.IH [OF inv1 e1(1) rest] e1 show ?case
    by (auto simp: run_Cons)
qed

lemma created_step:
  assumes "hash_table_access (Aux_Storage s) P = None"
    and "recorded_block s P ev = Some b"
  shows "\<exists>e'. hash_table_access (Aux_Storage (step lg s ev)) P = Some e'
    \<and> set (footprint_blocks e') = {b}"
proof (cases ev)
  case (Hit p a c g)
  with assms show ?thesis
    by (auto simp: pref_bingo_ul1_hit_def aux_update_footprint footprint_blocks_new
        block_index_less split: if_splits)
next
  case (Miss p a c g)
  with assms show ?thesis
    by (auto simp: aux_miss aux_update_footprint footprint_blocks_new
        block_index_less split: if_splits)
next
  case (Evict p a)
  with assms show ?thesis by simp
qed

subsection \<open>What an eviction commits\<close>

lemma add_entry_front:
  assumes "wf_line l"
  shows "front_slot (add_entry l r) < current_size (add_entry l r)"
    and "line (add_entry l r) ! front_slot (add_entry l r) = r"
    and "front_slot (add_entry l r) = (if current_size l < 16 then current_size l else usage_order l ! 15)"
proof -
  from assms have len: "length (usage_order l) = 16" "length (line l) = 16" "current_size l \<le> 16"
    by (simp_all add: wf_line_def)
  then have z: "0 < length (usage_order l)" by simp
  show f: "front_slot (add_entry l r) = (if current_size l < 16 then current_size l else usage_order l ! 15)"
    using z by (simp add: front_slot_def add_entry_free add_entry_full shift_right_length)
  have v: "\<not> current_size l < 16 \<Longrightarrow> usage_order l ! 15 < current_size l"
    using wf_line_order_less [OF assms, of 15] len by simp
  show "front_slot (add_entry l r) < current_size (add_entry l r)"
    unfolding f using v by (simp add: add_entry_size)
  show "line (add_entry l r) ! front_slot (add_entry l r) = r"
    unfolding f using v len by (simp add: add_entry_line)
qed

lemma add_entry_others:
  assumes "wf_line l" "j < current_size (add_entry l r)" "j \<noteq> front_slot (add_entry l r)"
  shows "j < current_size l \<and> line (add_entry l r) ! j = line l ! j"
  using assms add_entry_front(3) [OF assms(1), of r]
  by (auto simp: add_entry_size add_entry_line split: if_splits)

lemma find_front_matches:
  assumes "wf_line l" "0 < current_size l"
    and "pc_plus_address (line l ! front_slot l) = q"
  shows "find_event_to_fetch_addr_no_guard l q = Some (front_slot l)"
proof -
  from assms(2,3)
  have "find (\<lambda>i. pc_plus_address (line l ! (usage_order l ! i)) = q) [0..<current_size l]
    = Some 0"
    by (simp add: find_upt_Some front_slot_def)
  then show ?thesis by (simp add: find_event_to_fetch_addr_no_guard_def front_slot_def)
qed

lemma find_front_signature:
  assumes "wf_line l" "0 < current_size l"
    and "pc_plus_offset (line l ! front_slot l) = k"
  shows "find_event_to_fetch_no_guard l k = Some (front_slot l)"
proof -
  from assms(2,3)
  have "find (\<lambda>i. pc_plus_offset (line l ! (usage_order l ! i)) = k) [0..<current_size l]
    = Some 0"
    by (simp add: find_upt_Some front_slot_def)
  then show ?thesis by (simp add: find_event_to_fetch_no_guard_def front_slot_def)
qed

lemma commit_inserts:
  fixes s :: bingo_state and p :: uns8 and a :: Addr and e :: Aux_Entry
  assumes inv: "state_inv s"
    and live: "hash_table_access (Aux_Storage s) (bingo_get_page_number a) = Some e"
  defines "k \<equiv> commit_signature (pc e) a"
    and "s' \<equiv> pref_bingo_ul1_cache_evict s p a"
  shows "hash_table_access (History_Table s') k
           = Some (add_entry (bucket_of s k) (committed_record e a))"
    and "front_slot (bucket_of s' k) < current_size (bucket_of s' k)"
    and "line (bucket_of s' k) ! front_slot (bucket_of s' k) = committed_record e a"
    and "current_size (bucket_of s' k)
           = (if current_size (bucket_of s k) < 16 then Suc (current_size (bucket_of s k)) else 16)"
    and "\<forall>j<current_size (bucket_of s' k). j \<noteq> front_slot (bucket_of s' k) \<longrightarrow>
           j < current_size (bucket_of s k) \<and> line (bucket_of s' k) ! j = line (bucket_of s k) ! j"
    and "pref_bingo_find_event_to_fetch_addr (History_Table s') (bucket_of s' k) (pc e + a)
           = Some (front_slot (bucket_of s' k))"
    and "pref_bingo_find_event_to_fetch (History_Table s') (bucket_of s' k) k
           = Some (front_slot (bucket_of s' k))"
    and "\<forall>k'. k' \<noteq> k \<longrightarrow>
           hash_table_access (History_Table s') k' = hash_table_access (History_Table s) k'"
    and "\<forall>P. hash_table_access (Aux_Storage s') P
           = (if P = bingo_get_page_number a then None else hash_table_access (Aux_Storage s) P)"
    and "ul1req_queue s' = ul1req_queue s"
proof -
  let ?b = "bucket_of s k" and ?r = "committed_record e a"
  have s': "s' = s\<lparr>History_Table := hash_table_access_replace (History_Table s) k (add_entry ?b ?r),
      Aux_Storage := hash_table_access_delete (Aux_Storage s) (bingo_get_page_number a)\<rparr>"
    unfolding s'_def k_def committed_record_def using live by (rule evict_tracked)
  show h: "hash_table_access (History_Table s') k = Some (add_entry ?b ?r)"
    by (simp add: s' access_replace)
  then have b': "bucket_of s' k = add_entry ?b ?r" by (simp add: bucket_of_def)
  have wf: "wf_line ?b" using inv by (rule bucket_of_inv)
  have wf': "wf_line (add_entry ?b ?r)" using wf by (rule wf_add_entry)
  show 2: "front_slot (bucket_of s' k) < current_size (bucket_of s' k)"
    unfolding b' using wf by (rule add_entry_front(1))
  show 3: "line (bucket_of s' k) ! front_slot (bucket_of s' k) = ?r"
    unfolding b' using wf by (rule add_entry_front(2))
  from wf have "current_size ?b \<le> 16" by (simp add: wf_line_def)
  then show "current_size (bucket_of s' k)
      = (if current_size ?b < 16 then Suc (current_size ?b) else 16)"
    unfolding b' by (simp add: add_entry_size)
  show "\<forall>j<current_size (bucket_of s' k). j \<noteq> front_slot (bucket_of s' k) \<longrightarrow>
      j < current_size ?b \<and> line (bucket_of s' k) ! j = line ?b ! j"
    unfolding b' using add_entry_others [OF wf] by blast
  from 2 have pos: "0 < current_size (bucket_of s' k)" by simp
  from h have c: "count (History_Table s') \<noteq> 0" by (rule access_count)
  from 3 have a3: "pc_plus_address (line (bucket_of s' k) ! front_slot (bucket_of s' k)) = pc e + a"
    and k3: "pc_plus_offset (line (bucket_of s' k) ! front_slot (bucket_of s' k)) = k"
    by (simp_all add: committed_record_def k_def)
  from wf' have wfb: "wf_line (bucket_of s' k)" by (simp add: b')
  show "pref_bingo_find_event_to_fetch_addr (History_Table s') (bucket_of s' k) (pc e + a)
      = Some (front_slot (bucket_of s' k))"
    unfolding find_addr_eq_no_guard [OF c] using wfb pos a3 by (rule find_front_matches)
  show "pref_bingo_find_event_to_fetch (History_Table s') (bucket_of s' k) k
      = Some (front_slot (bucket_of s' k))"
    unfolding find_eq_no_guard [OF c] using wfb pos k3 by (rule find_front_signature)
  show "\<forall>k'. k' \<noteq> k \<longrightarrow>
      hash_table_access (History_Table s') k' = hash_table_access (History_Table s) k'"
    by (simp add: s' access_replace)
  show "\<forall>P. hash_table_access (Aux_Storage s') P
      = (if P = bingo_get_page_number a then None else hash_table_access (Aux_Storage s) P)"
    by (simp add: s' access_delete)
  show "ul1req_queue s' = ul1req_queue s" by (simp add: s')
qed

section \<open>The claims\<close>

text \<open>
  C10. On a miss for which a record is selected and prefetches are emitted, the auxiliary
  storage is left as it was: no live footprint record is created for the missed page and
  no footprint bit is set for the missed block.
\<close>

theorem miss_with_prediction_keeps_aux:
  assumes "miss_selection s a c \<noteq> None"
  shows "Aux_Storage (pref_bingo_ul1_miss lg s p a c g) = Aux_Storage s"
  using assms by (auto simp: miss_unfold)

theorem miss_with_prediction_keeps_aux_witness:
  "Aux_Storage (pref_bingo_ul1_miss 6 (run 6 (pref_bingo_init 7) predicted_miss_trace) 0 64 0 0)
     = Aux_Storage (run 6 (pref_bingo_init 7) predicted_miss_trace)
   \<and> hash_table_access (Aux_Storage (run 6 (pref_bingo_init 7) predicted_miss_trace)) 0 \<noteq> None"
proof -
  have h: "miss_selection (run 6 (pref_bingo_init 7) predicted_miss_trace) 64 0 \<noteq> None"
    by code_simp
  have l: "hash_table_access (Aux_Storage (run 6 (pref_bingo_init 7) predicted_miss_trace)) 0 \<noteq> None"
    by code_simp
  from miss_with_prediction_keeps_aux [OF h] l show ?thesis by simp
qed

text \<open>
  C9. When the line searched was obtained by a successful lookup in the history table,
  the table's count is not zero, so the early return of both searches is not taken, and
  each search returns what the search without the guard returns.
\<close>

theorem guard_redundant:
  assumes "hash_table_access H k = Some l"
  shows "count H \<noteq> 0
    \<and> pref_bingo_find_event_to_fetch H l ppo = find_event_to_fetch_no_guard l ppo
    \<and> pref_bingo_find_event_to_fetch_addr H l ppa = find_event_to_fetch_addr_no_guard l ppa"
proof -
  from assms have "H \<noteq> []" by (auto simp: hash_table_access_def)
  then show ?thesis
    by (simp add: count_def pref_bingo_find_event_to_fetch_def
        pref_bingo_find_event_to_fetch_addr_def find_event_to_fetch_no_guard_def
        find_event_to_fetch_addr_no_guard_def)
qed

theorem guard_redundant_witness:
  "count one_record_table \<noteq> 0
   \<and> pref_bingo_find_event_to_fetch one_record_table (snd (hd one_record_table)) 5
       = find_event_to_fetch_no_guard (snd (hd one_record_table)) 5
   \<and> pref_bingo_find_event_to_fetch_addr one_record_table (snd (hd one_record_table)) 9
       = find_event_to_fetch_addr_no_guard (snd (hd one_record_table)) 9
   \<and> find_event_to_fetch_addr_no_guard (snd (hd one_record_table)) 9 = Some 0"
proof -
  have h: "hash_table_access one_record_table 5 = Some (snd (hd one_record_table))"
    by (simp add: hash_table_access_def one_record_table_def)
  have r: "find_event_to_fetch_addr_no_guard (snd (hd one_record_table)) 9 = Some 0"
    by code_simp
  from guard_redundant [OF h, of 5 9] r show ?thesis by simp
qed

text \<open>
  C3. Exact-match precedence: when the line found for a miss is well formed (every line
  of a state reached from the empty stores is, by \<open>state_inv_reachable\<close>) and holds, in an
  occupied slot, a record whose \<open>pc_plus_address\<close> equals the query's, the miss handler
  selects and prefetches from a record with that \<open>pc_plus_address\<close>: the requests that
  \<open>pref_bingo_ul1_miss\<close> appends to the queue are those of the emitter run on that record,
  one for each block of that record's footprint, wherever the records stand in the
  recency order and whatever other records match the signature only.
\<close>

theorem exact_match_precedence:
  assumes "hash_table_access (History_Table s) (miss_signature c a) = Some l"
    and "wf_line l"
    and "j < current_size l"
    and "pc_plus_address (line l ! j) = c + a"
  shows "\<exists>i. i < current_size l \<and> pc_plus_address (line l ! i) = c + a
    \<and> miss_selection s a c = Some (l, i)
    \<and> ul1req_queue (pref_bingo_ul1_miss lg s p a c g)
        = pref_bingo_prefetch lg (hwp_in_id s) (ul1req_queue s) (line l ! i) p
            (bingo_get_page_number a)
    \<and> ul1req_queue (pref_bingo_ul1_miss lg s p a c g)
        = ul1req_queue s
          @ map (prefetch_request lg (hwp_in_id s) p
                   (bingo_get_page_base_from_number (bingo_get_page_number a)))
              (footprint_blocks (entry (line l ! i)))"
proof -
  from find_addr_no_guard_Some [OF assms(2,3,4)] assms(1)
  obtain i where i: "i < current_size l" "pc_plus_address (line l ! i) = c + a"
    "miss_selection s a c = Some (l, i)"
    by (auto simp: miss_selection_def select_event_no_guard)
  from i(3) have q: "ul1req_queue (pref_bingo_ul1_miss lg s p a c g)
      = pref_bingo_prefetch lg (hwp_in_id s) (ul1req_queue s) (line l ! i) p
            (bingo_get_page_number a)"
    by (simp add: miss_unfold)
  have "pref_bingo_prefetch lg (hwp_in_id s) (ul1req_queue s) (line l ! i) p
            (bingo_get_page_number a)
      = ul1req_queue s
          @ map (prefetch_request lg (hwp_in_id s) p
                   (bingo_get_page_base_from_number (bingo_get_page_number a)))
              (footprint_blocks (entry (line l ! i)))"
    unfolding pref_bingo_prefetch_def Let_def fold_emit footprint_blocks_def ..
  with q i show ?thesis by auto
qed

theorem exact_match_precedence_witness:
  "front_slot (bucket_of (run 6 (pref_bingo_init 7) exact_and_signature_trace) 0) = 1
   \<and> footprint_blocks
        (entry (line (bucket_of (run 6 (pref_bingo_init 7) exact_and_signature_trace) 0) ! 1)) = [1]
   \<and> pc_plus_address
        (line (bucket_of (run 6 (pref_bingo_init 7) exact_and_signature_trace) 0) ! 1) \<noteq> 0 + 0
   \<and> footprint_blocks
        (entry (line (bucket_of (run 6 (pref_bingo_init 7) exact_and_signature_trace) 0) ! 0)) = [0]
   \<and> (\<exists>i. pc_plus_address
          (line (bucket_of (run 6 (pref_bingo_init 7) exact_and_signature_trace) 0) ! i) = 0 + 0
        \<and> ul1req_queue (run 6 (pref_bingo_init 7) (exact_and_signature_trace @ [Miss 0 0 0 0]))
          = pref_bingo_prefetch 6 7 []
              (line (bucket_of (run 6 (pref_bingo_init 7) exact_and_signature_trace) 0) ! i) 0
              (bingo_get_page_number 0))
   \<and> ul1req_queue (run 6 (pref_bingo_init 7) (exact_and_signature_trace @ [Miss 0 0 0 0]))
       = [(0, 0, 7)]"
proof -
  define s where "s = run 6 (pref_bingo_init 7) exact_and_signature_trace"
  have l: "hash_table_access (History_Table s) (miss_signature 0 0) = Some (bucket_of s 0)"
    unfolding s_def by code_simp
  have "state_inv s" unfolding s_def by (rule state_inv_reachable)
  with l have wf: "wf_line (bucket_of s 0)" by (auto simp: state_inv_def)
  have j: "0 < current_size (bucket_of s 0)" unfolding s_def by code_simp
  have e: "pc_plus_address (line (bucket_of s 0) ! 0) = 0 + 0" unfolding s_def by code_simp
  have h: "hwp_in_id s = 7" "ul1req_queue s = []" unfolding s_def by code_simp+
  have r: "run 6 (pref_bingo_init 7) (exact_and_signature_trace @ [Miss 0 0 0 0])
      = pref_bingo_ul1_miss 6 s 0 0 0 0"
    by (simp add: run_append run_Cons run_Nil s_def)
  from exact_match_precedence [OF l wf j e, of 6 0 0]
  have 1: "\<exists>i. pc_plus_address (line (bucket_of s 0) ! i) = 0 + 0
        \<and> ul1req_queue (run 6 (pref_bingo_init 7) (exact_and_signature_trace @ [Miss 0 0 0 0]))
          = pref_bingo_prefetch 6 7 [] (line (bucket_of s 0) ! i) 0 (bingo_get_page_number 0)"
    unfolding r h by blast
  have 2: "front_slot (bucket_of s 0) = 1"
    "footprint_blocks (entry (line (bucket_of s 0) ! 1)) = [1]"
    "pc_plus_address (line (bucket_of s 0) ! 1) \<noteq> 0 + 0"
    "footprint_blocks (entry (line (bucket_of s 0) ! 0)) = [0]"
    unfolding s_def by code_simp+
  have 3: "ul1req_queue (run 6 (pref_bingo_init 7) (exact_and_signature_trace @ [Miss 0 0 0 0]))
       = [(0, 0, 7)]"
    by code_simp
  from 1 2 3 show ?thesis unfolding s_def by (intro conjI)
qed

text \<open>
  C2, as stated, fails: after the trace \<open>duplicate_key_trace\<close> the line under signature 0
  holds two records with \<open>pc_plus_address = 0\<close>. A miss at address 0 by pc 0 selects the
  more recent one, in slot 1, and \<open>mark_used_by_address\<close> then promotes slot 0, the first
  slot holding that address: the selected record is not at the front.
\<close>

theorem selected_record_promoted_counterexample:
  "map_option snd (miss_selection (run 6 (pref_bingo_init 7) duplicate_key_trace) 0 0) = Some 1
   \<and> front_slot (bucket_of
        (pref_bingo_ul1_miss 6 (run 6 (pref_bingo_init 7) duplicate_key_trace) 0 0 0 0) 0) = 0
   \<and> line (bucket_of
        (pref_bingo_ul1_miss 6 (run 6 (pref_bingo_init 7) duplicate_key_trace) 0 0 0 0) 0) ! 0
     \<noteq> line (bucket_of
        (pref_bingo_ul1_miss 6 (run 6 (pref_bingo_init 7) duplicate_key_trace) 0 0 0 0) 0) ! 1"
  by code_simp

text \<open>
  C2, amended. In a well-formed state (every state reached from the empty stores is one,
  by \<open>state_inv_reachable\<close>), for every miss on which a record is selected, by the exact
  match or by the signature match, and no other occupied slot of the line has the query's
  \<open>pc_plus_address\<close>: after the miss handler returns, the line stored under the signature
  has the selected slot at the front of its recency order, and its records and size are
  unchanged.
\<close>

theorem selected_record_promoted:
  assumes "state_inv s"
    and "miss_selection s a c = Some (l, i)"
    and "\<forall>j<current_size l. pc_plus_address (line l ! j) = c + a \<longrightarrow> j = i"
  shows "hash_table_access (History_Table (pref_bingo_ul1_miss lg s p a c g)) (miss_signature c a)
      = Some (mark_used_by_address l (c + a))
    \<and> usage_order (mark_used_by_address l (c + a)) ! 0 = i
    \<and> line (mark_used_by_address l (c + a)) = line l
    \<and> current_size (mark_used_by_address l (c + a)) = current_size l
    \<and> i < current_size l"
proof -
  from assms(2) have l: "hash_table_access (History_Table s) (miss_signature c a) = Some l"
    and sel: "select_event (History_Table s) l (c + a) (miss_signature c a) = Some i"
    by (auto simp: miss_selection_def split: option.splits)
  from assms(1) l have wf: "wf_line l" "0 < current_size l"
    "\<forall>i<current_size l. pc_plus_offset (line l ! i) = miss_signature c a"
    by (auto simp: state_inv_def)
  have stored: "hash_table_access (History_Table (pref_bingo_ul1_miss lg s p a c g))
      (miss_signature c a) = Some (mark_used_by_address l (c + a))"
    using assms(2) by (simp add: miss_unfold hash_table_access_store_through)
  have "usage_order (mark_used_by_address l (c + a)) ! 0 = i \<and> i < current_size l"
  proof (cases "find_event_to_fetch_addr_no_guard l (c + a)")
    case None
    with sel l have "find_event_to_fetch_no_guard l (miss_signature c a) = Some i"
      by (simp add: select_event_no_guard)
    with find_no_guard_front [OF wf] have i: "i = usage_order l ! 0" by simp
    from None wf(1) have "\<forall>j<current_size l. pc_plus_address (line l ! j) \<noteq> c + a"
      by (auto dest: find_addr_no_guard_None)
    then have "mark_used_by_address l (c + a) = l" by (rule mark_used_absent)
    moreover from wf(1,2) have "usage_order l ! 0 < current_size l"
      by (rule wf_line_order_less)
    ultimately show ?thesis using i by simp
  next
    case (Some i')
    with sel l have "i' = i" by (simp add: select_event_no_guard)
    with Some have "\<exists>p<current_size l. usage_order l ! p = i
        \<and> pc_plus_address (line l ! i) = c + a"
      by (auto simp: find_event_to_fetch_addr_no_guard_def find_upt_Some)
    with wf(1) have i: "i < current_size l" "pc_plus_address (line l ! i) = c + a"
      by (auto simp: wf_line_order_less)
    from wf(1) i assms(3) have "usage_order (mark_used_by_address l (c + a)) ! 0 = i"
      by (rule mark_used_front)
    with i show ?thesis by simp
  qed
  with stored show ?thesis by simp
qed

theorem selected_record_promoted_witness:
  "front_slot (bucket_of (run 6 (pref_bingo_init 7) exact_and_signature_trace) 0) = 1
   \<and> hash_table_access
       (History_Table
         (pref_bingo_ul1_miss 6 (run 6 (pref_bingo_init 7) exact_and_signature_trace) 0 0 0 0))
       (miss_signature 0 0)
     = Some (mark_used_by_address
         (bucket_of (run 6 (pref_bingo_init 7) exact_and_signature_trace) 0) (0 + 0))
   \<and> usage_order (mark_used_by_address
         (bucket_of (run 6 (pref_bingo_init 7) exact_and_signature_trace) 0) (0 + 0)) ! 0 = 0"
proof -
  define s where "s = run 6 (pref_bingo_init 7) exact_and_signature_trace"
  have inv: "state_inv s" unfolding s_def by (rule state_inv_reachable)
  have sel: "miss_selection s 0 0 = Some (bucket_of s 0, 0)" unfolding s_def by code_simp
  have n: "current_size (bucket_of s 0) = 2" unfolding s_def by code_simp
  have o: "pc_plus_address (line (bucket_of s 0) ! 1) \<noteq> 0 + 0" unfolding s_def by code_simp
  have u: "\<forall>j<current_size (bucket_of s 0).
      pc_plus_address (line (bucket_of s 0) ! j) = 0 + 0 \<longrightarrow> j = 0"
  proof (intro allI impI)
    fix j
    assume "j < current_size (bucket_of s 0)"
      and "pc_plus_address (line (bucket_of s 0) ! j) = 0 + 0"
    with n o show "j = 0" by (cases "j = 1") auto
  qed
  have f: "front_slot (bucket_of s 0) = 1" unfolding s_def by code_simp
  from selected_record_promoted [OF inv sel u, of 6 0 0] f show ?thesis
    unfolding s_def by simp
qed

text \<open>
  C8. Footprint portability, where the code departs from it. The emitter takes the line
  index of \<open>page_base + i * 64\<close> and casts it to \<open>uns\<close>, 32 bits, before it queues it. The
  address \<open>0x4000000000\<close> is in the page of number \<open>0x4000000\<close>, whose blocks 0 and 1 have
  the line indices \<open>0x100000000\<close> and \<open>0x100000001\<close>, which the cast cuts to 0 and 1. For
  the record with footprint blocks 0 and 1 learned on page 0 (\<open>line_zero_trace\<close>), the
  emitter run with page number \<open>0x4000000\<close> queues the line indices 0 and 1, the very
  requests it queues when run with page number 0; so does a miss at \<open>0x4000000000\<close> that
  selects this record: the requests are for lines of page 0, not of the page of the miss.
\<close>

theorem prefetch_line_index_cut:
  "bingo_get_page_number 0x4000000000 = 0x4000000
   \<and> drop_bit 6 (bingo_get_page_base_from_number 0x4000000) = (0x100000000 :: Addr)
   \<and> drop_bit 6 (bingo_get_page_base_from_number 0x4000000 + 64) = (0x100000001 :: Addr)
   \<and> footprint_blocks (entry (line (bucket_of (run 6 (pref_bingo_init 7) line_zero_trace) 0x400) ! 0))
       = [0, 1]
   \<and> pref_bingo_prefetch 6 7 []
        (line (bucket_of (run 6 (pref_bingo_init 7) line_zero_trace) 0x400) ! 0) 0 0x4000000
       = [(0, 0, 7), (0, 1, 7)]
   \<and> pref_bingo_prefetch 6 7 []
        (line (bucket_of (run 6 (pref_bingo_init 7) line_zero_trace) 0x400) ! 0) 0 0
       = [(0, 0, 7), (0, 1, 7)]
   \<and> miss_selection (run 6 (pref_bingo_init 7) line_zero_trace)
        0x4000000000 (0x400 - 0x4000000000)
       = Some (bucket_of (run 6 (pref_bingo_init 7) line_zero_trace) 0x400, 0)
   \<and> ul1req_queue
        (pref_bingo_ul1_miss 6 (run 6 (pref_bingo_init 7) line_zero_trace) 0
           0x4000000000 (0x400 - 0x4000000000) 0)
       = [(0, 0, 7), (0, 1, 7)]
   \<and> ul1req_queue
        (pref_bingo_ul1_miss 6 (run 6 (pref_bingo_init 7) line_zero_trace) 0 0 0x400 0)
       = [(0, 0, 7), (0, 1, 7)]"
  by code_simp

text \<open>
  C1, as stated, fails: for \<open>I = 0\<close>, \<open>X = 0x10000\<close> (page 16, block 0) the record is
  committed under \<open>commit_signature 0 0x10000 = 0x400\<close>; the later miss at
  \<open>Y = 0x20000\<close> (page 32, block 0) looks up \<open>miss_signature 0 0x20000 = 0x20000\<close>, finds
  no line and emits nothing.
\<close>

theorem end_to_end_round_trip_counterexample:
  "bingo_get_block_index 0x10000 = 0 \<and> bingo_get_block_index 0x10040 = 1
   \<and> bingo_get_page_number 0x10040 = bingo_get_page_number 0x10000
   \<and> bingo_get_block_index 0x20000 = bingo_get_block_index 0x10000
   \<and> bingo_get_page_number 0x20000 \<noteq> bingo_get_page_number 0x10000
   \<and> hash_table_access
        (History_Table (run 6 (pref_bingo_init 7) [Miss 0 0x10000 0 0, Hit 0 0x10040 0 0, Evict 0 0x10000]))
        (commit_signature 0 0x10000) \<noteq> None
   \<and> miss_selection
        (run 6 (pref_bingo_init 7) [Miss 0 0x10000 0 0, Hit 0 0x10040 0 0, Evict 0 0x10000])
        0x20000 0 = None
   \<and> ul1req_queue (run 6 (pref_bingo_init 7) (end_to_end_trace 0 0 0x10000 0x10040 0x20000)) = []"
  by code_simp

text \<open>
  C1, amended. Learning: starting from the empty stores, after a miss at \<open>X\<close> (block 0 of
  its page) and a hit at \<open>X'\<close> (block 1 of the same page) by instruction \<open>I\<close> and the
  eviction of \<open>X\<close>, and nothing else, the history table holds under
  \<open>commit_signature I X\<close> a line with one record, \<open>learned_record I X\<close>, whose exact key is
  \<open>I + X\<close> and whose footprint is blocks 0 and 1, and the page of \<open>X\<close> is no longer tracked.
  Prediction: in any state, a miss at \<open>Y\<close> on which the lookup selects that record appends
  exactly two requests to the queue, for blocks 0 and 1 of the page of \<open>Y\<close>, when the line
  indices of these two blocks are below \<open>2^32\<close>; the index queued is then the line index
  itself. On which later misses the lookup selects the record is not part of this
  statement.
\<close>

theorem end_to_end_round_trip:
  assumes "bingo_get_page_number X' = bingo_get_page_number X"
    and "bingo_get_block_index X = 0" and "bingo_get_block_index X' = 1"
  shows "hash_table_access
        (History_Table (run lg (pref_bingo_init hid) [Miss p X I g, Hit p X' I h, Evict p X]))
        (commit_signature I X) = Some (add_entry zero_Table_Line (learned_record I X))
    \<and> current_size (add_entry zero_Table_Line (learned_record I X)) = 1
    \<and> line (add_entry zero_Table_Line (learned_record I X)) ! 0 = learned_record I X
    \<and> pc_plus_address (learned_record I X) = I + X
    \<and> pc_plus_offset (learned_record I X) = commit_signature I X
    \<and> footprint_blocks (entry (learned_record I X)) = [0, 1]
    \<and> hash_table_access
        (Aux_Storage (run lg (pref_bingo_init hid) [Miss p X I g, Hit p X' I h, Evict p X]))
        (bingo_get_page_number X) = None
    \<and> (miss_selection s Y c = Some (l, i) \<and> line l ! i = learned_record I X
        \<and> unat (drop_bit lg (bingo_get_page_base_from_number (bingo_get_page_number Y))) < 2 ^ 32
        \<and> unat (drop_bit lg (bingo_get_page_base_from_number (bingo_get_page_number Y) + 64)) < 2 ^ 32
        \<longrightarrow>
          ul1req_queue (pref_bingo_ul1_miss lg s q Y c g') =
            ul1req_queue s @
            [(q, ucast (drop_bit lg (bingo_get_page_base_from_number (bingo_get_page_number Y))),
              hwp_in_id s),
             (q, ucast (drop_bit lg (bingo_get_page_base_from_number (bingo_get_page_number Y) + 64)),
              hwp_in_id s)]
        \<and> (ucast (ucast (drop_bit lg
               (bingo_get_page_base_from_number (bingo_get_page_number Y))) :: uns) :: Addr)
            = drop_bit lg (bingo_get_page_base_from_number (bingo_get_page_number Y))
        \<and> (ucast (ucast (drop_bit lg
               (bingo_get_page_base_from_number (bingo_get_page_number Y) + 64)) :: uns) :: Addr)
            = drop_bit lg (bingo_get_page_base_from_number (bingo_get_page_number Y) + 64))"
proof -
  define s3 where "s3 = run lg (pref_bingo_init hid) [Miss p X I g, Hit p X' I h, Evict p X]"
  define pb where "pb = bingo_get_page_base_from_number (bingo_get_page_number Y)"
  have s3: "s3 = \<lparr>History_Table = [(commit_signature I X, add_entry zero_Table_Line (learned_record I X))],
     Aux_Storage = [], hwp_in_id = hid, ul1req_queue = []\<rparr>"
    unfolding s3_def using assms by (rule learned_state)
  have 1: "hash_table_access (History_Table s3) (commit_signature I X)
      = Some (add_entry zero_Table_Line (learned_record I X))"
    unfolding s3 by (simp add: hash_table_access_def)
  have 2: "current_size (add_entry zero_Table_Line (learned_record I X)) = 1"
    unfolding learned_line by simp
  have 9: "line (add_entry zero_Table_Line (learned_record I X)) ! 0 = learned_record I X"
    unfolding learned_line by simp
  have 3: "pc_plus_address (learned_record I X) = I + X"
    "pc_plus_offset (learned_record I X) = commit_signature I X"
    by (simp_all add: learned_record_def)
  have 4: "footprint_blocks (entry (learned_record I X)) = [0, 1]"
    unfolding footprint_blocks_def by (rule learned_footprint)
  have 5: "hash_table_access (Aux_Storage s3) (bingo_get_page_number X) = None"
    unfolding s3 by (simp add: hash_table_access_def)
  have 6: "ul1req_queue (pref_bingo_ul1_miss lg s q Y c g') =
            ul1req_queue s @
            [(q, ucast (drop_bit lg pb), hwp_in_id s), (q, ucast (drop_bit lg (pb + 64)), hwp_in_id s)]"
    if sel: "miss_selection s Y c = Some (l, i)" and rec: "line l ! i = learned_record I X"
  proof -
    have "ul1req_queue (pref_bingo_ul1_miss lg s q Y c g') =
        pref_bingo_prefetch lg (hwp_in_id s) (ul1req_queue s) (line l ! i) q (bingo_get_page_number Y)"
      unfolding miss_unfold sel by simp
    also have "\<dots> = ul1req_queue s @
        map (\<lambda>i. (q, ucast (drop_bit lg (pb + of_nat i * 64)), hwp_in_id s)) [0, 1]"
      unfolding pref_bingo_prefetch_eq rec learned_footprint pb_def ..
    finally show ?thesis by simp
  qed
  have 7: "(ucast (ucast (drop_bit lg pb) :: uns) :: Addr) = drop_bit lg pb"
    if "unat (drop_bit lg pb) < 2 ^ 32"
    using that by (rule ucast_back)
  have 8: "(ucast (ucast (drop_bit lg (pb + 64)) :: uns) :: Addr) = drop_bit lg (pb + 64)"
    if "unat (drop_bit lg (pb + 64)) < 2 ^ 32"
    using that by (rule ucast_back)
  show ?thesis
    unfolding s3_def [symmetric] pb_def [symmetric]
    apply (intro conjI impI)
            apply (rule 1)
           apply (rule 2)
          apply (rule 9)
         apply (rule 3(1))
        apply (rule 3(2))
       apply (rule 4)
      apply (rule 5)
     apply (erule conjE)+
     apply (erule (1) 6)
    apply (erule conjE)+
    apply (erule 7)
    apply (erule conjE)+
    apply (erule 8)
    done
qed

theorem end_to_end_round_trip_witness:
  "hash_table_access (History_Table (run 6 (pref_bingo_init 7) line_zero_trace))
      (commit_signature 0x400 0) \<noteq> None
   \<and> miss_selection (run 6 (pref_bingo_init 7) line_zero_trace) 0 0x400 \<noteq> None
   \<and> ul1req_queue (run 6 (pref_bingo_init 7) (line_zero_trace @ [Miss 0 0 0x400 0]))
       = [(0, 0, 7), (0, 1, 7)]"
proof -
  define s where "s = run 6 (pref_bingo_init 7) line_zero_trace"
  have pg: "bingo_get_page_number 64 = bingo_get_page_number 0" "bingo_get_block_index 0 = 0"
    "bingo_get_block_index 64 = 1"
    by code_simp+
  have sel: "miss_selection s 0 0x400 = Some (add_entry zero_Table_Line (learned_record 0x400 0), 0)"
    unfolding s_def by code_simp
  have rec: "line (add_entry zero_Table_Line (learned_record 0x400 0)) ! 0 = learned_record 0x400 0"
    by code_simp
  have idx: "drop_bit 6 (bingo_get_page_base_from_number (bingo_get_page_number 0)) = (0 :: Addr)"
    "drop_bit 6 (bingo_get_page_base_from_number (bingo_get_page_number 0) + 64) = (1 :: Addr)"
    by code_simp+
  have fit: "unat (drop_bit 6 (bingo_get_page_base_from_number (bingo_get_page_number 0))) < 2 ^ 32"
    "unat (drop_bit 6 (bingo_get_page_base_from_number (bingo_get_page_number 0) + 64)) < 2 ^ 32"
    unfolding idx by simp_all
  have val: "(ucast (drop_bit 6 (bingo_get_page_base_from_number (bingo_get_page_number 0))) :: uns) = 0"
    "(ucast (drop_bit 6 (bingo_get_page_base_from_number (bingo_get_page_number 0) + 64)) :: uns) = 1"
    unfolding idx by simp_all
  have st: "hwp_in_id s = 7" "ul1req_queue s = []" unfolding s_def by code_simp+
  have r: "run 6 (pref_bingo_init 7) (line_zero_trace @ [Miss 0 0 0x400 0])
      = pref_bingo_ul1_miss 6 s 0 0 0x400 0"
    by (simp add: run_append run_Cons run_Nil s_def)
  note t = end_to_end_round_trip [OF pg, where I = "0x400" and lg = 6 and hid = 7 and p = 0
      and g = 0 and h = 0 and s = s and Y = 0 and c = "0x400" and q = 0 and g' = 0
      and l = "add_entry zero_Table_Line (learned_record 0x400 0)" and i = 0]
  have "hash_table_access
        (History_Table (run 6 (pref_bingo_init 7) [Miss 0 0 0x400 0, Hit 0 64 0x400 0, Evict 0 0]))
        (commit_signature 0x400 0) = Some (add_entry zero_Table_Line (learned_record 0x400 0))"
    by (rule t [THEN conjunct1])
  then have 1: "hash_table_access (History_Table (run 6 (pref_bingo_init 7) line_zero_trace))
      (commit_signature 0x400 0) \<noteq> None"
    unfolding line_zero_trace_def by (simp only: option.distinct not_False_eq_True)
  note i = t [THEN conjunct2, THEN conjunct2, THEN conjunct2, THEN conjunct2, THEN conjunct2,
      THEN conjunct2, THEN conjunct2]
  from sel rec fit have "ul1req_queue (pref_bingo_ul1_miss 6 s 0 0 0x400 0) =
      ul1req_queue s @
      [(0, ucast (drop_bit 6 (bingo_get_page_base_from_number (bingo_get_page_number 0))), hwp_in_id s),
       (0, ucast (drop_bit 6 (bingo_get_page_base_from_number (bingo_get_page_number 0) + 64)),
        hwp_in_id s)]"
    by (intro i [THEN mp, THEN conjunct1] conjI)
  then have 2: "ul1req_queue (run 6 (pref_bingo_init 7) (line_zero_trace @ [Miss 0 0 0x400 0]))
       = [(0, 0, 7), (0, 1, 7)]"
    unfolding r val st by (simp only: append_Nil)
  from sel have 3: "miss_selection (run 6 (pref_bingo_init 7) line_zero_trace) 0 0x400 \<noteq> None"
    unfolding s_def by (simp only: option.distinct not_False_eq_True)
  from 1 3 2 show ?thesis by (intro conjI)
qed

text \<open>
  C4, as stated, fails in its last part: after sixteen insertions of records that share
  the key pair \<open>(1, 1)\<close>, the least recently used record is in slot 0; the insertion of a
  record with the keys \<open>(2, 2)\<close> overwrites slot 0, and both searches for the former key
  pair still return a record, the one in slot 15.
\<close>

theorem bounded_lru_bucket_counterexample:
  "current_size (run_ops zero_Table_Line same_key_ops) = 16
   \<and> usage_order (run_ops zero_Table_Line same_key_ops) ! 15 = 0
   \<and> line (run_ops zero_Table_Line same_key_ops) ! 0 = keyed_record 1 1 0
   \<and> pref_bingo_find_event_to_fetch_addr one_record_table
        (add_entry (run_ops zero_Table_Line same_key_ops) (keyed_record 2 2 0)) 1 = Some 15
   \<and> pref_bingo_find_event_to_fetch one_record_table
        (add_entry (run_ops zero_Table_Line same_key_ops) (keyed_record 2 2 0)) 1 = Some 15
   \<and> line (add_entry (run_ops zero_Table_Line same_key_ops) (keyed_record 2 2 0)) ! 15
       = keyed_record 1 1 15"
  by code_simp

text \<open>
  C4, amended. For every line reached from the zeroed line by a sequence of \<open>add_entry\<close>
  and \<open>mark_used_by_address\<close>: \<open>current_size\<close> is at most 16, the first \<open>current_size\<close>
  cells of \<open>usage_order\<close> hold each occupied slot index \<open>0, ..., current_size - 1\<close> once,
  and \<open>add_entry\<close> into a full line overwrites exactly the slot \<open>usage_order[15]\<close>, the back
  of the recency order, and puts it at the front. Afterwards the search by
  \<open>pc_plus_address\<close> for the overwritten record's exact key finds nothing, provided
  neither the new record nor another slot of the line has that \<open>pc_plus_address\<close>.
\<close>

theorem bounded_lru_bucket:
  assumes "l = run_ops zero_Table_Line ops"
  shows "current_size l \<le> 16
    \<and> distinct (take (current_size l) (usage_order l))
    \<and> set (take (current_size l) (usage_order l)) = {0..<current_size l}
    \<and> (current_size l = 16 \<longrightarrow>
          usage_order l ! 15 < 16
        \<and> line (add_entry l e) = (line l)[usage_order l ! 15 := e]
        \<and> current_size (add_entry l e) = 16
        \<and> front_slot (add_entry l e) = usage_order l ! 15
        \<and> ((\<forall>j<16. j \<noteq> usage_order l ! 15 \<longrightarrow>
               pc_plus_address (line l ! j) \<noteq> pc_plus_address (line l ! (usage_order l ! 15)))
             \<and> pc_plus_address e \<noteq> pc_plus_address (line l ! (usage_order l ! 15))
           \<longrightarrow> pref_bingo_find_event_to_fetch_addr H (add_entry l e)
                 (pc_plus_address (line l ! (usage_order l ! 15))) = None))"
proof -
  have wf: "wf_line l" unfolding assms by (rule wf_run_ops) (rule wf_zero_Table_Line)
  then have inv: "current_size l \<le> 16" "distinct (take (current_size l) (usage_order l))"
    "set (take (current_size l) (usage_order l)) = {0..<current_size l}"
    by (simp_all add: wf_line_def)
  have full: "usage_order l ! 15 < 16
        \<and> line (add_entry l e) = (line l)[usage_order l ! 15 := e]
        \<and> current_size (add_entry l e) = 16
        \<and> front_slot (add_entry l e) = usage_order l ! 15
        \<and> ((\<forall>j<16. j \<noteq> usage_order l ! 15 \<longrightarrow>
               pc_plus_address (line l ! j) \<noteq> pc_plus_address (line l ! (usage_order l ! 15)))
             \<and> pc_plus_address e \<noteq> pc_plus_address (line l ! (usage_order l ! 15))
           \<longrightarrow> pref_bingo_find_event_to_fetch_addr H (add_entry l e)
                 (pc_plus_address (line l ! (usage_order l ! 15))) = None)"
    if n: "current_size l = 16"
  proof -
    have 1: "usage_order l ! 15 < 16"
      using wf_line_order_less [OF wf, of 15] n by simp
    have 2: "line (add_entry l e) = (line l)[usage_order l ! 15 := e]"
      using n by (simp add: add_entry_line)
    have 3: "current_size (add_entry l e) = 16"
      using n by (simp add: add_entry_size)
    from wf have "0 < length (usage_order l)" by (simp add: wf_line_def)
    then have 4: "front_slot (add_entry l e) = usage_order l ! 15"
      using n by (simp add: front_slot_def add_entry_full shift_right_length)
    have 5: "pref_bingo_find_event_to_fetch_addr H (add_entry l e)
        (pc_plus_address (line l ! (usage_order l ! 15))) = None"
      if "\<forall>j<16. j \<noteq> usage_order l ! 15 \<longrightarrow>
           pc_plus_address (line l ! j) \<noteq> pc_plus_address (line l ! (usage_order l ! 15))"
        and "pc_plus_address e \<noteq> pc_plus_address (line l ! (usage_order l ! 15))"
    proof (cases "count H = 0")
      case True
      then show ?thesis by (simp add: pref_bingo_find_event_to_fetch_addr_def)
    next
      case False
      with add_entry_evicts [OF wf n that] show ?thesis
        by (simp add: find_addr_eq_no_guard)
    qed
    from 1 2 3 4 5 show ?thesis by blast
  qed
  from inv full show ?thesis by blast
qed

theorem bounded_lru_bucket_witness:
  "current_size (run_ops zero_Table_Line distinct_key_ops) = 16
   \<and> usage_order (run_ops zero_Table_Line distinct_key_ops) ! 15 = 0
   \<and> pc_plus_address (line (run_ops zero_Table_Line distinct_key_ops) ! 0) = 0
   \<and> line (add_entry (run_ops zero_Table_Line distinct_key_ops) (keyed_record 100 7 0))
       = (line (run_ops zero_Table_Line distinct_key_ops))[0 := keyed_record 100 7 0]
   \<and> front_slot (add_entry (run_ops zero_Table_Line distinct_key_ops) (keyed_record 100 7 0)) = 0
   \<and> pref_bingo_find_event_to_fetch_addr one_record_table
        (add_entry (run_ops zero_Table_Line distinct_key_ops) (keyed_record 100 7 0)) 0 = None"
proof -
  define l where "l = run_ops zero_Table_Line distinct_key_ops"
  have n: "current_size l = 16" unfolding l_def by code_simp
  have v: "usage_order l ! 15 = 0" unfolding l_def by code_simp
  have a: "pc_plus_address (line l ! 0) = 0" unfolding l_def by code_simp
  have "\<forall>j\<in>set [0..<16]. j \<noteq> 0 \<longrightarrow> pc_plus_address (line l ! j) \<noteq> 0"
    unfolding l_def by code_simp
  then have o: "\<forall>j<16. j \<noteq> 0 \<longrightarrow> pc_plus_address (line l ! j) \<noteq> 0"
    by (simp only: set_upt atLeastLessThan_iff) simp
  have e: "pc_plus_address (keyed_record 100 7 0) \<noteq> 0" by code_simp
  from bounded_lru_bucket [OF l_def, of "keyed_record 100 7 0" one_record_table] n v a o e
  show ?thesis unfolding l_def [symmetric] by simp
qed

text \<open>
  C5. Single commit per page epoch: in a well-formed state (every state reached from the
  empty stores is one, by \<open>state_inv_reachable\<close>) in which a page has a live record \<open>e\<close>,
  the first eviction of one of its lines, at address \<open>a\<close>, inserts one record into the
  line under \<open>commit_signature (pc e) a\<close>: the record \<open>committed_record e a\<close>, which holds
  \<open>e\<close> as it was, stands in an occupied slot, the one at the front of the recency order;
  the number of occupied slots grows by one, or stays 16 when the line was full; every
  other occupied slot holds what it held; the search for the exact key and the search
  for the signature both return the new slot; no other line of the history table
  changes. The eviction deletes the page, and no other page, from the auxiliary storage.
  As long as no hit or miss to that page comes in between, every later eviction of a line
  of that page leaves the whole state unchanged; in particular a sequence of evictions
  for that page only.
\<close>

theorem single_commit_per_page_epoch:
  assumes inv: "state_inv s"
    and live: "hash_table_access (Aux_Storage s) (bingo_get_page_number a) = Some e"
    and quiet: "\<forall>ev\<in>set evs. \<not> touches_page (bingo_get_page_number a) ev"
  shows "hash_table_access (History_Table (pref_bingo_ul1_cache_evict s p a))
          (commit_signature (pc e) a)
        = Some (add_entry (bucket_of s (commit_signature (pc e) a)) (committed_record e a))
    \<and> front_slot (bucket_of (pref_bingo_ul1_cache_evict s p a) (commit_signature (pc e) a))
        < current_size (bucket_of (pref_bingo_ul1_cache_evict s p a) (commit_signature (pc e) a))
    \<and> line (bucket_of (pref_bingo_ul1_cache_evict s p a) (commit_signature (pc e) a))
          ! front_slot (bucket_of (pref_bingo_ul1_cache_evict s p a) (commit_signature (pc e) a))
        = committed_record e a
    \<and> current_size (bucket_of (pref_bingo_ul1_cache_evict s p a) (commit_signature (pc e) a))
        = (if current_size (bucket_of s (commit_signature (pc e) a)) < 16
           then Suc (current_size (bucket_of s (commit_signature (pc e) a))) else 16)
    \<and> (\<forall>j<current_size
              (bucket_of (pref_bingo_ul1_cache_evict s p a) (commit_signature (pc e) a)).
          j \<noteq> front_slot
                (bucket_of (pref_bingo_ul1_cache_evict s p a) (commit_signature (pc e) a)) \<longrightarrow>
          j < current_size (bucket_of s (commit_signature (pc e) a))
          \<and> line (bucket_of (pref_bingo_ul1_cache_evict s p a) (commit_signature (pc e) a)) ! j
              = line (bucket_of s (commit_signature (pc e) a)) ! j)
    \<and> pref_bingo_find_event_to_fetch_addr (History_Table (pref_bingo_ul1_cache_evict s p a))
          (bucket_of (pref_bingo_ul1_cache_evict s p a) (commit_signature (pc e) a)) (pc e + a)
        = Some (front_slot
            (bucket_of (pref_bingo_ul1_cache_evict s p a) (commit_signature (pc e) a)))
    \<and> pref_bingo_find_event_to_fetch (History_Table (pref_bingo_ul1_cache_evict s p a))
          (bucket_of (pref_bingo_ul1_cache_evict s p a) (commit_signature (pc e) a))
          (commit_signature (pc e) a)
        = Some (front_slot
            (bucket_of (pref_bingo_ul1_cache_evict s p a) (commit_signature (pc e) a)))
    \<and> (\<forall>k'. k' \<noteq> commit_signature (pc e) a \<longrightarrow>
          hash_table_access (History_Table (pref_bingo_ul1_cache_evict s p a)) k'
            = hash_table_access (History_Table s) k')
    \<and> (\<forall>P. hash_table_access (Aux_Storage (pref_bingo_ul1_cache_evict s p a)) P
          = (if P = bingo_get_page_number a then None
             else hash_table_access (Aux_Storage s) P))
    \<and> (\<forall>pre p' b post.
          evs = pre @ Evict p' b # post \<and> bingo_get_page_number b = bingo_get_page_number a \<longrightarrow>
          step lg (run lg (pref_bingo_ul1_cache_evict s p a) pre) (Evict p' b)
            = run lg (pref_bingo_ul1_cache_evict s p a) pre)
    \<and> ((\<forall>ev\<in>set evs. evicts_page (bingo_get_page_number a) ev) \<longrightarrow>
          run lg (pref_bingo_ul1_cache_evict s p a) evs = pref_bingo_ul1_cache_evict s p a)"
proof -
  note c = commit_inserts [OF inv live, of p]
  have none: "hash_table_access (Aux_Storage (pref_bingo_ul1_cache_evict s p a))
      (bingo_get_page_number a) = None"
    by (simp add: aux_evict)
  have later: "step lg (run lg (pref_bingo_ul1_cache_evict s p a) pre) (Evict p' b)
      = run lg (pref_bingo_ul1_cache_evict s p a) pre"
    if h: "evs = pre @ Evict p' b # post \<and> bingo_get_page_number b = bingo_get_page_number a"
    for pre p' b post
  proof -
    from h quiet have "\<forall>ev\<in>set pre. \<not> touches_page (bingo_get_page_number a) ev" by auto
    with none have "hash_table_access (Aux_Storage (run lg (pref_bingo_ul1_cache_evict s p a) pre))
        (bingo_get_page_number a) = None"
      by (rule untracked_run)
    with h show ?thesis by (simp add: evict_untracked)
  qed
  have only: "run lg (pref_bingo_ul1_cache_evict s p a) evs = pref_bingo_ul1_cache_evict s p a"
    if "\<forall>ev\<in>set evs. evicts_page (bingo_get_page_number a) ev"
    using none that by (rule untracked_evictions)
  from c later only show ?thesis by blast
qed

theorem single_commit_per_page_epoch_witness:
  "current_size (bucket_of tracked_page_commit 0) = 1
   \<and> front_slot (bucket_of tracked_page_commit 0) = 0
   \<and> pc_plus_address (line (bucket_of tracked_page_commit 0) ! 0) = 0
   \<and> footprint_blocks (entry (line (bucket_of tracked_page_commit 0) ! 0)) = [0, 1]
   \<and> pref_bingo_find_event_to_fetch_addr (History_Table tracked_page_commit)
        (bucket_of tracked_page_commit 0) 0 = Some 0
   \<and> hash_table_access (Aux_Storage tracked_page_commit) 0 = None
   \<and> run 6 tracked_page_commit [Evict 0 64, Evict 1 128] = tracked_page_commit
   \<and> step 6 (run 6 tracked_page_commit [Hit 0 0x2000 5 0, Evict 0 0x2000]) (Evict 0 64)
       = run 6 tracked_page_commit [Hit 0 0x2000 5 0, Evict 0 0x2000]"
proof -
  define e where "e = the (hash_table_access (Aux_Storage tracked_page_state) (bingo_get_page_number 0))"
  have inv: "state_inv tracked_page_state"
    unfolding tracked_page_state_def by (rule state_inv_reachable)
  have live: "hash_table_access (Aux_Storage tracked_page_state) (bingo_get_page_number 0) = Some e"
    unfolding e_def by code_simp
  have pg: "bingo_get_page_number 0 = 0" "bingo_get_page_number 64 = 0"
    "bingo_get_page_number 128 = 0" by code_simp+
  have k: "commit_signature (pc e) 0 = 0" "pc e + 0 = 0" unfolding e_def by code_simp+
  have q1: "\<forall>ev\<in>set [Evict 0 64, Evict 1 128]. \<not> touches_page (bingo_get_page_number 0) ev"
    by simp
  have e1: "\<forall>ev\<in>set [Evict 0 64, Evict 1 128]. evicts_page (bingo_get_page_number 0) ev"
    by (simp add: pg)
  have q2: "\<forall>ev\<in>set [Hit 0 0x2000 5 0, Evict 0 0x2000, Evict 0 64].
      \<not> touches_page (bingo_get_page_number 0) ev"
    by code_simp
  note t1 = single_commit_per_page_epoch [OF inv live q1, of 0 6, folded tracked_page_commit_def,
      unfolded k pg]
  note t2 = single_commit_per_page_epoch [OF inv live q2, of 0 6, folded tracked_page_commit_def,
      unfolded k pg]
  have n: "current_size (bucket_of tracked_page_commit 0) = 1"
    "front_slot (bucket_of tracked_page_commit 0) = 0"
    "pc_plus_address (line (bucket_of tracked_page_commit 0) ! 0) = 0"
    "footprint_blocks (entry (line (bucket_of tracked_page_commit 0) ! 0)) = [0, 1]"
    by code_simp+
  from t1 have f: "pref_bingo_find_event_to_fetch_addr (History_Table tracked_page_commit)
        (bucket_of tracked_page_commit 0) 0 = Some (front_slot (bucket_of tracked_page_commit 0))"
    by blast
  from t1 have a: "hash_table_access (Aux_Storage tracked_page_commit) 0 = None"
    by simp
  from t1 e1 have b: "run 6 tracked_page_commit [Evict 0 64, Evict 1 128] = tracked_page_commit"
    unfolding pg by blast
  from t2 have "[Hit 0 0x2000 5 0, Evict 0 0x2000, Evict 0 64]
        = [Hit 0 0x2000 5 0, Evict 0 0x2000] @ Evict 0 64 # []
      \<and> bingo_get_page_number 64 = 0 \<longrightarrow>
      step 6 (run 6 tracked_page_commit [Hit 0 0x2000 5 0, Evict 0 0x2000]) (Evict 0 64)
       = run 6 tracked_page_commit [Hit 0 0x2000 5 0, Evict 0 0x2000]"
    by blast
  then have c: "step 6 (run 6 tracked_page_commit [Hit 0 0x2000 5 0, Evict 0 0x2000]) (Evict 0 64)
       = run 6 tracked_page_commit [Hit 0 0x2000 5 0, Evict 0 0x2000]"
    by (simp add: pg)
  from n f a b c show ?thesis by simp
qed




text \<open>
  C7, as stated, fails in its second part: after \<open>predicted_miss_trace\<close> page 0 has a live
  record with block 0 set. A miss at address 64 (page 0, block 1) by pc 0 finds the record
  committed under signature 64 and prefetches; the live footprint of page 0 still has
  block 0 only, although block 1 of the page was observed by a miss.
\<close>

theorem footprint_records_observations_counterexample:
  "bingo_get_page_number 64 = 0 \<and> bingo_get_block_index 64 = 1
   \<and> map_option footprint_blocks
       (hash_table_access (Aux_Storage (run 6 (pref_bingo_init 7) predicted_miss_trace)) 0) = Some [0]
   \<and> map_option footprint_blocks
       (hash_table_access
          (Aux_Storage (pref_bingo_ul1_miss 6 (run 6 (pref_bingo_init 7) predicted_miss_trace) 0 64 0 0))
          0) = Some [0]"
  by code_simp

text \<open>
  C7, amended. A hit, or a miss on which no record is selected, in a page without a live
  record creates one whose footprint is exactly the block accessed. For a page with a
  live record, in a well-formed state (every state reached from the empty stores is one,
  by \<open>state_inv_reachable\<close>), and any later callbacks that do not evict a line of
  the page: the record stays live with its trigger address and pc, no flag is cleared, and
  the set of set flags is the set before together with the blocks of the hits to that page
  and of the misses to that page on which no record was selected. A miss that selects a
  record and prefetches is not recorded.
\<close>

theorem footprint_records_observations:
  assumes "state_inv s"
    and "\<forall>ev\<in>set evs. \<not> evicts_page P ev"
  shows "(hash_table_access (Aux_Storage s) P = None \<and> recorded_block s P ev = Some b \<longrightarrow>
           (\<exists>e'. hash_table_access (Aux_Storage (step lg s ev)) P = Some e'
              \<and> set (footprint_blocks e') = {b}))
    \<and> (hash_table_access (Aux_Storage s) P = Some e \<longrightarrow>
           (\<exists>e'. hash_table_access (Aux_Storage (run lg s evs)) P = Some e'
              \<and> trigger_addr e' = trigger_addr e \<and> pc e' = pc e
              \<and> set (footprint_blocks e) \<subseteq> set (footprint_blocks e')
              \<and> set (footprint_blocks e')
                  = set (footprint_blocks e) \<union> recorded_blocks lg s P evs))"
proof (intro conjI impI)
  assume "hash_table_access (Aux_Storage s) P = None \<and> recorded_block s P ev = Some b"
  then show "\<exists>e'. hash_table_access (Aux_Storage (step lg s ev)) P = Some e'
      \<and> set (footprint_blocks e') = {b}"
    by (auto intro: created_step)
next
  assume "hash_table_access (Aux_Storage s) P = Some e"
  from live_run [OF assms(1) this assms(2), of lg]
  show "\<exists>e'. hash_table_access (Aux_Storage (run lg s evs)) P = Some e'
      \<and> trigger_addr e' = trigger_addr e \<and> pc e' = pc e
      \<and> set (footprint_blocks e) \<subseteq> set (footprint_blocks e')
      \<and> set (footprint_blocks e') = set (footprint_blocks e) \<union> recorded_blocks lg s P evs"
    by auto
qed

theorem footprint_records_observations_witness:
  "set (footprint_blocks (the (hash_table_access
      (Aux_Storage (run 6 (run 6 (pref_bingo_init 7) predicted_miss_trace)
         [Miss 0 64 0 0, Hit 0 128 9 0, Miss 0 320 5 0, Evict 0 0x3000, Hit 0 0 0 0])) 0)))
     = {0, 2, 5}
   \<and> recorded_blocks 6 (run 6 (pref_bingo_init 7) predicted_miss_trace) 0
        [Miss 0 64 0 0, Hit 0 128 9 0, Miss 0 320 5 0, Evict 0 0x3000, Hit 0 0 0 0] = {0, 2, 5}"
proof -
  define s where "s = run 6 (pref_bingo_init 7) predicted_miss_trace"
  define evs where "evs = [Miss 0 64 0 0, Hit 0 128 9 0, Miss 0 320 5 0, Evict 0 0x3000, Hit 0 0 0 0]"
  have inv: "state_inv s" unfolding s_def by (rule state_inv_reachable)
  have keep: "\<forall>ev\<in>set evs. \<not> evicts_page 0 ev" unfolding evs_def by code_simp
  have live: "hash_table_access (Aux_Storage s) 0 = Some (the (hash_table_access (Aux_Storage s) 0))"
    unfolding s_def by code_simp
  have b: "set (footprint_blocks (the (hash_table_access (Aux_Storage s) 0))) = {0}"
    unfolding s_def by code_simp
  have r: "recorded_blocks 6 s 0 evs = {0, 2, 5}" unfolding s_def evs_def by code_simp
  from footprint_records_observations
    [where e = "the (hash_table_access (Aux_Storage s) 0)" and lg = 6, OF inv keep] live
  obtain e' where e': "hash_table_access (Aux_Storage (run 6 s evs)) 0 = Some e'"
    "set (footprint_blocks e')
       = set (footprint_blocks (the (hash_table_access (Aux_Storage s) 0)))
         \<union> recorded_blocks 6 s 0 evs"
    by blast
  from e'(2) have "set (footprint_blocks e') = {0, 2, 5}"
    unfolding b r by auto
  with e'(1) have 1: "set (footprint_blocks (the (hash_table_access
      (Aux_Storage (run 6 s evs)) 0))) = {0, 2, 5}"
    by simp
  from 1 r show ?thesis unfolding s_def evs_def by (rule conjI)
qed

end
